theory Spec2Isabelle
  imports Main
begin

section \<open>Strings and regular expressions of the source\<close>

text \<open>
  A JavaScript string is modelled as a \<^typ>\<open>string\<close>: a list of characters, each standing
  for one code unit in the range 0..255. The patterns of \<^verbatim>\<open>parseInlineIDL\<close> use the
  classes \<^verbatim>\<open>\w\<close>, \<^verbatim>\<open>\s\<close>, \<^verbatim>\<open>.\<close> and \<^verbatim>\<open>[\w ]\<close>,
  literal characters, the assertions \<^verbatim>\<open>^\<close> and \<^verbatim>\<open>$\<close> (no flag is set, so they
  mean start and end of the input) and the greedy quantifiers \<^verbatim>\<open>*\<close> and \<^verbatim>\<open>+\<close> on
  a single class. Capture groups are never nested and never quantified, so a pattern is
  a flat sequence of nodes.
\<close>

datatype cclass =
    Word          \<comment> \<open>\<^verbatim>\<open>\w\<close>\<close>
  | AnyChar       \<comment> \<open>\<^verbatim>\<open>.\<close>\<close>
  | WhiteSpace    \<comment> \<open>\<^verbatim>\<open>\s\<close>\<close>
  | WordOrSpace   \<comment> \<open>\<^verbatim>\<open>[\w ]\<close>\<close>
  | Lit char      \<comment> \<open>a literal character\<close>

datatype node =
    Bos           \<comment> \<open>\<^verbatim>\<open>^\<close>\<close>
  | Eos           \<comment> \<open>\<^verbatim>\<open>$\<close>\<close>
  | Chr cclass    \<comment> \<open>one character of the class\<close>
  | Star cclass   \<comment> \<open>greedy \<^verbatim>\<open>*\<close>\<close>
  | Plus cclass   \<comment> \<open>greedy \<^verbatim>\<open>+\<close>\<close>
  | GroupOpen     \<comment> \<open>\<^verbatim>\<open>(\<close>\<close>
  | GroupClose    \<comment> \<open>\<^verbatim>\<open>)\<close>\<close>

type_synonym regex = "node list"

definition is_word :: "char \<Rightarrow> bool" where
  "is_word c =
     (let n = of_char c :: nat
      in (48 \<le> n \<and> n \<le> 57) \<or> (65 \<le> n \<and> n \<le> 90) \<or> n = 95 \<or> (97 \<le> n \<and> n \<le> 122))"

text \<open>
  Line terminators below 256 are LF and CR; white space below 256 is TAB, LF, VT, FF,
  CR, SP and NBSP.
\<close>

definition is_line_terminator :: "char \<Rightarrow> bool" where
  "is_line_terminator c = (let n = of_char c :: nat in n = 10 \<or> n = 13)"

definition is_space :: "char \<Rightarrow> bool" where
  "is_space c = (let n = of_char c :: nat in (9 \<le> n \<and> n \<le> 13) \<or> n = 32 \<or> n = 160)"

fun in_class :: "cclass \<Rightarrow> char \<Rightarrow> bool" where
  "in_class Word c = is_word c"
| "in_class AnyChar c = (\<not> is_line_terminator c)"
| "in_class WhiteSpace c = is_space c"
| "in_class WordOrSpace c = (is_word c \<or> c = CHR '' '')"
| "in_class (Lit l) c = (c = l)"

text \<open>
  The backtracking matcher. \<open>pre\<close> is the input already consumed, reversed, counted
  from the start of the whole input; \<open>s\<close> is the input still ahead; \<open>opens\<close> holds
  the start offsets of the groups that are open; \<open>caps\<close> the finished captures in order.
  On success the captures and the unconsumed input are returned. A greedy quantifier
  first tries to take one more character and gives it back only when the rest of the
  pattern fails.
\<close>

fun rmatch :: "regex \<Rightarrow> string \<Rightarrow> string \<Rightarrow> nat list \<Rightarrow> string list \<Rightarrow> (string list \<times> string) option" where
  "rmatch [] pre s opens caps = Some (caps, s)"
| "rmatch (Bos # r) pre s opens caps = (if pre = [] then rmatch r pre s opens caps else None)"
| "rmatch (Eos # r) pre s opens caps = (if s = [] then rmatch r pre s opens caps else None)"
| "rmatch (Chr c # r) pre s opens caps =
     (case s of
        [] \<Rightarrow> None
      | x # xs \<Rightarrow> if in_class c x then rmatch r (x # pre) xs opens caps else None)"
| "rmatch (Star c # r) pre s opens caps =
     (case s of
        [] \<Rightarrow> rmatch r pre s opens caps
      | x # xs \<Rightarrow>
          if in_class c x
          then (case rmatch (Star c # r) (x # pre) xs opens caps of
                  Some m \<Rightarrow> Some m
                | None \<Rightarrow> rmatch r pre s opens caps)
          else rmatch r pre s opens caps)"
| "rmatch (Plus c # r) pre s opens caps =
     (case s of
        [] \<Rightarrow> None
      | x # xs \<Rightarrow> if in_class c x then rmatch (Star c # r) (x # pre) xs opens caps else None)"
| "rmatch (GroupOpen # r) pre s opens caps = rmatch r pre s (length pre # opens) caps"
| "rmatch (GroupClose # r) pre s opens caps =
     (case opens of
        [] \<Rightarrow> rmatch r pre s opens caps
      | k # os \<Rightarrow> rmatch r pre s os (caps @ [rev (take (length pre - k) pre)]))"

text \<open>
  \<^verbatim>\<open>RegExp.prototype.exec\<close> without flags: the first start position, from the left, at
  which the pattern matches. The result is the list of captures (the array returned
  by \<^verbatim>\<open>match\<close> without its element 0).
\<close>

fun exec_from :: "regex \<Rightarrow> string \<Rightarrow> string \<Rightarrow> string list option" where
  "exec_from r pre s =
     (case rmatch r pre s [] [] of
        Some (caps, rest) \<Rightarrow> Some caps
      | None \<Rightarrow> (case s of [] \<Rightarrow> None | x # xs \<Rightarrow> exec_from r (x # pre) xs))"

definition regex_match :: "string \<Rightarrow> regex \<Rightarrow> string list option" where
  "regex_match s r = exec_from r [] s"

definition regex_test :: "regex \<Rightarrow> string \<Rightarrow> bool" where
  "regex_test r s = (regex_match s r \<noteq> None)"

text \<open>The four patterns, node by node as the source writes them.\<close>

definition methodRegex :: regex where
  \<comment> \<open>\<^verbatim>\<open>/(\w+)\((.*)\)$/\<close>\<close>
  "methodRegex =
     [GroupOpen, Plus Word, GroupClose, Chr (Lit (CHR ''('')),
      GroupOpen, Star AnyChar, GroupClose, Chr (Lit (CHR '')'')), Eos]"

definition slotRegex :: regex where
  \<comment> \<open>\<^verbatim>\<open>/$\[\[(\w+)\]\]$/\<close>\<close>
  "slotRegex =
     [Eos, Chr (Lit (CHR ''['')), Chr (Lit (CHR ''['')),
      GroupOpen, Plus Word, GroupClose,
      Chr (Lit (CHR '']'')), Chr (Lit (CHR '']'')), Eos]"

definition attributeRegex :: regex where
  \<comment> \<open>\<^verbatim>\<open>/^(\w+)$/\<close>\<close>
  "attributeRegex = [Bos, GroupOpen, Plus Word, GroupClose, Eos]"

definition enumRegex :: regex where
  \<comment> \<open>\<^verbatim>\<open>/^(\w+)\["([\w ]+)"\]$/\<close>\<close>
  "enumRegex =
     [Bos, GroupOpen, Plus Word, GroupClose, Chr (Lit (CHR ''['')), Chr (Lit (CHR 0x22)),
      GroupOpen, Plus WordOrSpace, GroupClose, Chr (Lit (CHR 0x22)), Chr (Lit (CHR '']'')), Eos]"

definition argSeparator :: regex where
  \<comment> \<open>\<^verbatim>\<open>/,\s*/\<close>\<close>
  "argSeparator = [Chr (Lit (CHR '','')), Star WhiteSpace]"


text \<open>
  \<^verbatim>\<open>String.prototype.split\<close> with a one-character separator string: the pieces between
  the occurrences, so the result is never empty and the empty input gives one empty
  piece.
\<close>

fun split :: "char \<Rightarrow> string \<Rightarrow> string list" where
  "split sep [] = [[]]"
| "split sep (c # cs) =
     (if c = sep then [] # split sep cs
      else (case split sep cs of [] \<Rightarrow> [[c]] | t # ts \<Rightarrow> (c # t) # ts))"

text \<open>
  \<^verbatim>\<open>String.prototype.split\<close> with a pattern (no limit). \<open>cur\<close> is the piece collected
  since the last separator, reversed; the pattern is tried at every position of the
  input, a match that would leave the position where the piece started is skipped, and
  the captures of a match are spliced into the result.
\<close>

function regex_split_from :: "regex \<Rightarrow> string \<Rightarrow> string \<Rightarrow> string \<Rightarrow> string list" where
  "regex_split_from r pre cur s =
     (case s of
        [] \<Rightarrow> [rev cur]
      | x # xs \<Rightarrow>
          (case rmatch r pre s [] [] of
             None \<Rightarrow> regex_split_from r (x # pre) (x # cur) xs
           | Some (caps, rest) \<Rightarrow>
               if cur = [] \<and> length rest = length s
               then regex_split_from r (x # pre) (x # cur) xs
               else rev cur # caps @
                    regex_split_from r (rev (take (length s - length rest) s) @ pre) [] rest))"
  by pat_completeness auto
termination
proof -
  have shorter: "length rest \<le> length s"
    if "rmatch r pre s opens caps = Some (cs, rest)"
    for r pre s opens caps cs rest
    using that
  proof (induction r pre s opens caps rule: rmatch.induct)
    case (5 c r pre s opens caps)
    show ?case
    proof (cases s)
      case Nil
      with "5.IH"(1) "5.prems" show ?thesis by simp
    next
      case (Cons x xs)
      show ?thesis
      proof (cases "in_class c x")
        case False
        with "5.IH"(4) "5.prems" Cons show ?thesis by simp
      next
        case True
        show ?thesis
        proof (cases "rmatch (Star c # r) (x # pre) xs opens caps")
          case None
          with "5.IH"(3) "5.prems" Cons True show ?thesis by simp
        next
          case (Some m)
          with "5.prems" Cons True have "rmatch (Star c # r) (x # pre) xs opens caps = Some (cs, rest)"
            by simp
          from "5.IH"(2) [OF Cons True this] Cons show ?thesis by simp
        qed
      qed
    qed
  next
    case (4 c r pre s opens caps)
    show ?case
    proof (cases s)
      case Nil
      with "4.prems" show ?thesis by simp
    next
      case (Cons x xs)
      with "4.prems" have ic: "in_class c x"
        and m: "rmatch r (x # pre) xs opens caps = Some (cs, rest)"
        by (auto split: if_splits)
      from "4.IH" [OF Cons ic m] Cons show ?thesis by simp
    qed
  next
    case (6 c r pre s opens caps)
    show ?case
    proof (cases s)
      case Nil
      with "6.prems" show ?thesis by simp
    next
      case (Cons x xs)
      with "6.prems" have ic: "in_class c x"
        and m: "rmatch (Star c # r) (x # pre) xs opens caps = Some (cs, rest)"
        by (auto split: if_splits)
      from "6.IH" [OF Cons ic m] Cons show ?thesis by simp
    qed
  next
    case (8 r pre s opens caps)
    then show ?case by (cases opens) auto
  qed (auto split: if_splits)
  show ?thesis
  proof (relation "measures [\<lambda>(r, pre, cur, s). length s, \<lambda>(r, pre, cur, s). length cur]")
    show "wf (measures [\<lambda>(r, pre, cur, s). length s, \<lambda>(r, pre, cur, s). length cur])"
      by simp
  next
    fix r :: regex and pre cur s :: string and x xs
    assume "s = x # xs"
    then show "((r, x # pre, x # cur, xs), r, pre, cur, s)
       \<in> measures [\<lambda>(r, pre, cur, s). length s, \<lambda>(r, pre, cur, s). length cur]"
      by simp
  next
    fix r :: regex and pre cur s :: string and x xs
    assume "s = x # xs"
    then show "((r, x # pre, x # cur, xs), r, pre, cur, s)
       \<in> measures [\<lambda>(r, pre, cur, s). length s, \<lambda>(r, pre, cur, s). length cur]"
      by simp
  next
    fix r :: regex and pre cur s :: string and x xs m caps rest
    assume "s = x # xs" and "rmatch r pre s [] [] = Some m" and "(caps, rest) = m"
      and "\<not> (cur = [] \<and> length rest = length s)"
    moreover from this have "length rest \<le> length s"
      using shorter [of r pre s "[]" "[]" caps rest] by simp
    ultimately show "((r, rev (take (length s - length rest) s) @ pre, [], rest), r, pre, cur, s)
       \<in> measures [\<lambda>(r, pre, cur, s). length s, \<lambda>(r, pre, cur, s). length cur]"
      by (cases "length rest = length s") auto
  qed
qed

definition regex_split :: "string \<Rightarrow> regex \<Rightarrow> string list" where
  "regex_split s r =
     (if s = [] then (case rmatch r [] [] [] [] of None \<Rightarrow> [s] | Some m \<Rightarrow> [])
      else regex_split_from r [] [] s)"


section \<open>Segments and the store\<close>

text \<open>
  The parser builds one object per token and links the objects through their
  \<^verbatim>\<open>parent\<close> property; the renderer later writes \<^verbatim>\<open>idlType\<close> into an object and
  reads it back through the \<^verbatim>\<open>parent\<close> of another. Objects therefore live in a store:
  a list of objects, an object's address being its index, and a new object is appended.
  \<^verbatim>\<open>parent\<close> is \<open>None\<close> for \<^verbatim>\<open>null\<close> (and before the linking pass, which runs before
  anything reads it); \<^verbatim>\<open>args\<close> and \<^verbatim>\<open>enumValue\<close> are \<open>None\<close> on the objects
  that do not have the property.
\<close>

datatype js_val = Undefined | Null | Str string

record segment =
  type :: string
  "identifier" :: string
  args :: "string list option"
  enumValue :: "string option"
  parent :: "nat option"
  idlType :: js_val

type_synonym heap = "segment list"

datatype js_error =
    SyntaxError string int
      \<comment> \<open>\<^verbatim>\<open>IDL micro-syntax parsing error: "${value}" at token ${++count}.\<close>\<close>
  | TypeError
  | Error string

section \<open>parseInlineIDL\<close>

text \<open>
  The \<^verbatim>\<open>while\<close> loop: \<open>tokens\<close> is the array still to be processed (\<^verbatim>\<open>pop\<close> takes its
  last element), \<open>results\<close> the addresses pushed so far.
\<close>

function while_loop :: "string list \<Rightarrow> int \<Rightarrow> nat list \<Rightarrow> heap \<Rightarrow> (js_error + nat list) \<times> heap" where
  "while_loop tokens count results h =
     (if tokens = [] then (Inr results, h)
      else
        let value = last tokens;
            tokens' = butlast tokens;
            count' = count - 1
        in
          if regex_test methodRegex value then
            (case regex_match value methodRegex of
               Some [identifier', allArgs] \<Rightarrow>
                 let args' = filter (\<lambda>arg. arg \<noteq> []) (regex_split allArgs argSeparator)
                 in while_loop tokens' count' (results @ [length h])
                      (h @ [\<lparr>type = ''method'', identifier = identifier', args = Some args',
                             enumValue = None, parent = None, idlType = Undefined\<rparr>])
             | _ \<Rightarrow> (Inl TypeError, h))
          else if regex_test slotRegex value then
            (case regex_match value slotRegex of
               Some [identifier'] \<Rightarrow>
                 while_loop tokens' count' (results @ [length h])
                   (h @ [\<lparr>type = ''internal-slot'', identifier = identifier', args = None,
                          enumValue = None, parent = None, idlType = Undefined\<rparr>])
             | _ \<Rightarrow> (Inl TypeError, h))
          else if regex_test enumRegex value then
            (case regex_match value enumRegex of
               Some [identifier', enumValue'] \<Rightarrow>
                 while_loop tokens' count' (results @ [length h])
                   (h @ [\<lparr>type = ''enum-value'', identifier = identifier', args = None,
                          enumValue = Some enumValue', parent = None, idlType = Undefined\<rparr>])
             | _ \<Rightarrow> (Inl TypeError, h))
          else if regex_test attributeRegex value \<and> tokens' \<noteq> [] then
            (case regex_match value attributeRegex of
               Some [identifier'] \<Rightarrow>
                 while_loop tokens' count' (results @ [length h])
                   (h @ [\<lparr>type = ''attribute'', identifier = identifier', args = None,
                          enumValue = None, parent = None, idlType = Undefined\<rparr>])
             | _ \<Rightarrow> (Inl TypeError, h))
          else if regex_test attributeRegex value \<and> length tokens' = 0 then
            while_loop tokens' count' (results @ [length h])
              (h @ [\<lparr>type = ''base'', identifier = value, args = None,
                     enumValue = None, parent = None, idlType = Undefined\<rparr>])
          else (Inl (SyntaxError value (count' + 1)), h))"
  by pat_completeness auto
termination
  by (relation "measure (\<lambda>(tokens, count, results, h). length tokens)") auto

text \<open>
  \<^verbatim>\<open>results.forEach((item, i, list) => { item.parent = list[i + 1] || null; })\<close>: walking
  the array from its first element, each object gets the next element as parent and
  the last one \<^verbatim>\<open>null\<close>.
\<close>

fun link_list :: "nat list \<Rightarrow> heap \<Rightarrow> heap" where
  "link_list [] h = h"
| "link_list [item] h = h[item := (h ! item)\<lparr>parent := None\<rparr>]"
| "link_list (item # next # list) h =
     link_list (next # list) (h[item := (h ! item)\<lparr>parent := Some next\<rparr>])"

definition parseInlineIDL :: "string \<Rightarrow> heap \<Rightarrow> (js_error + nat list) \<times> heap" where
  "parseInlineIDL str h =
     (let tokens = split (CHR ''.'') str;
          count = int (length tokens)
      in case while_loop tokens count [] h of
           (Inl e, h1) \<Rightarrow> (Inl e, h1)
         | (Inr results, h1) \<Rightarrow> (Inr (rev results), link_list results h1))"


section \<open>The document and the lookups\<close>

text \<open>
  The two lookups read the document. What they read is a list of elements in document
  order, each given by its \<^verbatim>\<open>textContent\<close> and its \<^verbatim>\<open>data-type\<close> attribute:
  \<open>document\<close> stands for \<^verbatim>\<open>document.body.querySelectorAll("dfn[data-type]")\<close>, and a
  context node for the \<^verbatim>\<open>var[data-type]\<close> elements of the closest section or body
  around its parent element (the node is taken to be attached, inside the body).
  \<open>None\<close> is a missing context node.
\<close>

type_synonym elems = "(string \<times> string) list"

definition trim :: "string \<Rightarrow> string" where
  "trim s = rev (dropWhile is_space (rev (dropWhile is_space s)))"

definition findDfnType :: "elems \<Rightarrow> string \<Rightarrow> js_val" where
  "findDfnType document varName =
     (case find (\<lambda>(textContent, dataType). trim textContent = varName) document of
        Some (textContent, dataType) \<Rightarrow> Str dataType
      | None \<Rightarrow> Null)"

definition findMarchingVarType :: "string \<Rightarrow> elems option \<Rightarrow> js_val" where
  "findMarchingVarType varName contextNode =
     (case contextNode of
        None \<Rightarrow> Null
      | Some potentialVars \<Rightarrow>
          (case find (\<lambda>(textContent, dataType). trim textContent = varName) potentialVars of
             Some (textContent, dataType) \<Rightarrow> Str dataType
           | None \<Rightarrow> Null))"

section \<open>Rendering\<close>

text \<open>
  \<^verbatim>\<open>hyperHTML\<close> is a library outside the repository. A node it returns is modelled by
  the template literal that made it and the values interpolated into the template, in
  the order of the template's holes.
\<close>

datatype html =
    VarHtml js_val string
      \<comment> \<open>\<^verbatim>\<open><var data-type="${details.idlType}">${identifier}</var>\<close>\<close>
  | IdlLinkHtml string
      \<comment> \<open>\<^verbatim>\<open><a data-xref-type="_IDL_">${identifier}</a>\<close>\<close>
  | InternalSlotHtml string js_val string string
      \<comment> \<open>type, idlType, lt, identifier\<close>
  | AttributeHtml string js_val string
      \<comment> \<open>type, idlType, identifier\<close>
  | MethodHtml string js_val string "string list"
      \<comment> \<open>type, idlType, identifier, \<^verbatim>\<open>[argsText]\<close>\<close>
  | EnumHtml string string js_val
      \<comment> \<open>type, identifier, enumValue\<close>

definition truthy :: "js_val \<Rightarrow> bool" where
  "truthy v = (case v of Undefined \<Rightarrow> False | Null \<Rightarrow> False | Str s \<Rightarrow> s \<noteq> [])"

definition to_string :: "js_val \<Rightarrow> string" where
  "to_string v = (case v of Undefined \<Rightarrow> ''undefined'' | Null \<Rightarrow> ''null'' | Str s \<Rightarrow> s)"

fun join :: "string \<Rightarrow> string list \<Rightarrow> string" where
  "join sep [] = []"
| "join sep [x] = x"
| "join sep (x # y # ys) = x @ sep @ join sep (y # ys)"

definition renderBase :: "nat \<Rightarrow> elems option \<Rightarrow> heap \<Rightarrow> html \<times> heap" where
  "renderBase details contextNode h =
     (let identifier' = identifier (h ! details);
          h1 = h[details := (h ! details)\<lparr>idlType := findMarchingVarType identifier' contextNode\<rparr>];
          html = (if truthy (idlType (h1 ! details))
                  then VarHtml (idlType (h1 ! details)) identifier'
                  else IdlLinkHtml identifier');
          h2 = (if \<not> truthy (idlType (h1 ! details))
                then h1[details := (h1 ! details)\<lparr>idlType := Str identifier'\<rparr>]
                else h1)
      in (html, h2))"

definition renderInternalSlot :: "elems \<Rightarrow> nat \<Rightarrow> heap \<Rightarrow> html \<times> heap" where
  "renderInternalSlot document details h =
     (let identifier' = identifier (h ! details);
          type' = type (h ! details);
          h1 = h[details := (h ! details)\<lparr>idlType := findDfnType document (''[['' @ identifier' @ '']]'')\<rparr>];
          lt = ''[['' @ identifier' @ '']]''
      in (InternalSlotHtml type' (idlType (h1 ! details)) lt identifier', h1))"

definition renderAttribute :: "nat \<Rightarrow> heap \<Rightarrow> html" where
  "renderAttribute details h =
     (let parent' = parent (h ! details);
          identifier' = identifier (h ! details);
          type' = type (h ! details);
          idlType' = (case parent' of Some p \<Rightarrow> idlType (h ! p) | None \<Rightarrow> Null)
      in AttributeHtml type' idlType' identifier')"

text \<open>
  \<^verbatim>\<open>const { idlType } = parent;\<close> throws a \<^verbatim>\<open>TypeError\<close> when \<^verbatim>\<open>parent\<close> is
  \<^verbatim>\<open>null\<close>; so does \<^verbatim>\<open>args.map\<close> on an object without \<^verbatim>\<open>args\<close>.
\<close>

definition renderMethod :: "nat \<Rightarrow> elems option \<Rightarrow> heap \<Rightarrow> js_error + html" where
  \<open>renderMethod details contextNode h =
     (let args' = args (h ! details);
          identifier' = identifier (h ! details);
          type' = type (h ! details);
          parent' = parent (h ! details)
      in case parent' of
           None \<Rightarrow> Inl TypeError
         | Some p \<Rightarrow>
             let idlType' = idlType (h ! p)
             in (case args' of
                   None \<Rightarrow> Inl TypeError
                 | Some as \<Rightarrow>
                     let argsText =
                           join '', ''
                             (map (\<lambda>(arg, type'').
                                     ''<var data-type="'' @ to_string type'' @ ''">'' @ arg @ ''</var>'')
                                (map (\<lambda>arg. (arg, findMarchingVarType arg contextNode)) as))
                     in Inr (MethodHtml type' idlType' identifier' [argsText])))\<close>

definition renderEnum :: "nat \<Rightarrow> heap \<Rightarrow> html" where
  "renderEnum details h =
     (let identifier' = identifier (h ! details);
          type' = type (h ! details);
          enumValue' = (case enumValue (h ! details) of Some v \<Rightarrow> Str v | None \<Rightarrow> Undefined)
      in EnumHtml type' identifier' enumValue')"

text \<open>The \<^verbatim>\<open>for ... of\<close> loop of \<^verbatim>\<open>idlStringToHtml\<close> with its \<^verbatim>\<open>switch\<close>.\<close>

fun render_loop :: "elems \<Rightarrow> elems option \<Rightarrow> nat list \<Rightarrow> html list \<Rightarrow> heap \<Rightarrow> (js_error + html list) \<times> heap" where
  "render_loop document contextNode [] output h = (Inr output, h)"
| "render_loop document contextNode (details # results) output h =
     (if type (h ! details) = ''base'' then
        (case renderBase details contextNode h of
           (html, h1) \<Rightarrow> render_loop document contextNode results (output @ [html]) h1)
      else if type (h ! details) = ''attribute'' then
        render_loop document contextNode results (output @ [renderAttribute details h]) h
      else if type (h ! details) = ''internal-slot'' then
        (case renderInternalSlot document details h of
           (html, h1) \<Rightarrow> render_loop document contextNode results (output @ [html]) h1)
      else if type (h ! details) = ''method'' then
        (case renderMethod details contextNode h of
           Inl e \<Rightarrow> (Inl e, h)
         | Inr html \<Rightarrow> render_loop document contextNode results (output @ [html]) h)
      else if type (h ! details) = ''enum-value'' then
        render_loop document contextNode results (output @ [renderEnum details h]) h
      else (Inl (Error ''Unknown type.''), h))"

text \<open>
  \<^verbatim>\<open>idlStringToHtml\<close>. An array is never falsy, so \<^verbatim>\<open>if (!results) return;\<close> never
  returns; the fragment is the list of the nodes pushed to \<^verbatim>\<open>output\<close>.
\<close>

definition idlStringToHtml :: "elems \<Rightarrow> string \<Rightarrow> elems option \<Rightarrow> heap \<Rightarrow> (js_error + html list) \<times> heap" where
  "idlStringToHtml document str contextNode h =
     (case parseInlineIDL str h of
        (Inl e, h1) \<Rightarrow> (Inl e, h1)
      | (Inr results, h1) \<Rightarrow> render_loop document contextNode results [] h1)"

section \<open>Notions used in the statements\<close>

text \<open>
  A token is classifiable when one of the patterns the loop tests accepts it: these
  are the patterns as the source writes them. The attribute and the base branch test
  the same pattern and differ in the number of tokens left, so a token that passes
  \<open>attributeRegex\<close> is accepted at every position.
\<close>

definition classifiable :: "string \<Rightarrow> bool" where
  "classifiable v =
     (regex_test methodRegex v \<or> regex_test slotRegex v \<or> regex_test enumRegex v \<or>
      regex_test attributeRegex v)"

text \<open>
  The internal-slot pattern as the specification words it: a token of the exact form
  \<^verbatim>\<open>[[name]]\<close>, anchored as the entire token, the name being word characters. This
  definition is written from the specification; \<open>slotRegex\<close> is what the source tests.
  With it, the five segment patterns of the specification: method, internal slot, enum
  value, and the bare word of attribute and base.
\<close>

definition spec_slotRegex :: regex where
  "spec_slotRegex =
     [Bos, Chr (Lit (CHR ''['')), Chr (Lit (CHR ''['')),
      GroupOpen, Plus Word, GroupClose,
      Chr (Lit (CHR '']'')), Chr (Lit (CHR '']'')), Eos]"

definition spec_classifiable :: "string \<Rightarrow> bool" where
  "spec_classifiable v =
     (regex_test methodRegex v \<or> regex_test spec_slotRegex v \<or> regex_test enumRegex v \<or>
      regex_test attributeRegex v)"

text \<open>
  The argument list as the specification words it: the text between the parentheses
  is split at every comma, the white space that follows a comma is not part of the
  next piece, and empty pieces are dropped. This definition is written from the
  specification; \<open>regex_split\<close> with \<open>argSeparator\<close> is what the source runs.
\<close>

definition spec_args :: "string \<Rightarrow> string list" where
  "spec_args s =
     filter (\<lambda>a. a \<noteq> [])
       (case split (CHR '','') s of [] \<Rightarrow> [] | p # ps \<Rightarrow> p # map (dropWhile is_space) ps)"

text \<open>Following \<^verbatim>\<open>parent\<close> a number of times from an address; \<open>None\<close> when a link is \<^verbatim>\<open>null\<close>.\<close>

fun follow :: "heap \<Rightarrow> nat \<Rightarrow> nat \<Rightarrow> nat option" where
  "follow h 0 a = Some a"
| "follow h (Suc n) a = (case parent (h ! a) of None \<Rightarrow> None | Some p \<Rightarrow> follow h n p)"

text \<open>The objects of a returned chain, in the returned order (none when the call threw).\<close>

definition chain_segments :: "(js_error + nat list) \<times> heap \<Rightarrow> segment list" where
  "chain_segments r = (case fst r of Inl e \<Rightarrow> [] | Inr chain \<Rightarrow> map (\<lambda>a. snd r ! a) chain)"

section \<open>Auxiliary definitions of the proofs\<close>

definition new_segment :: "string \<Rightarrow> string \<Rightarrow> segment" where
  "new_segment t i =
     \<lparr>type = t, identifier = i, args = None, enumValue = None, parent = None, idlType = Undefined\<rparr>"

text \<open>
  The object one iteration of the loop pushes for the token \<open>v\<close>, \<open>remain\<close> telling
  whether tokens are left after the \<^verbatim>\<open>pop\<close>; \<open>None\<close> when the iteration throws.
  Lemma \<open>while_loop_snoc\<close> shows that this is what \<open>while_loop\<close> does.
\<close>

definition token_object :: "string \<Rightarrow> bool \<Rightarrow> segment option" where
  "token_object v remain =
     (if regex_test methodRegex v then
        (case regex_match v methodRegex of
           Some [i, a] \<Rightarrow>
             Some ((new_segment ''method'' i)
                    \<lparr>args := Some (filter (\<lambda>arg. arg \<noteq> []) (regex_split a argSeparator))\<rparr>)
         | _ \<Rightarrow> None)
      else if regex_test slotRegex v then
        (case regex_match v slotRegex of
           Some [i] \<Rightarrow> Some (new_segment ''internal-slot'' i)
         | _ \<Rightarrow> None)
      else if regex_test enumRegex v then
        (case regex_match v enumRegex of
           Some [i, e] \<Rightarrow> Some ((new_segment ''enum-value'' i)\<lparr>enumValue := Some e\<rparr>)
         | _ \<Rightarrow> None)
      else if regex_test attributeRegex v then
        Some (new_segment (if remain then ''attribute'' else ''base'') v)
      else None)"

text \<open>The objects of a token list, in textual order, when every token is classifiable.\<close>

definition objs :: "string list \<Rightarrow> segment list" where
  "objs ts = map (\<lambda>i. the (token_object (ts ! i) (0 < i))) [0..<length ts]"

text \<open>
  The linking pass on the objects \<open>S\<close> that were pushed in this order, the first of
  them at address \<open>a\<close>.
\<close>

fun linked :: "nat \<Rightarrow> segment list \<Rightarrow> segment list" where
  "linked a [] = []"
| "linked a [s] = [s\<lparr>parent := None\<rparr>]"
| "linked a (s # t # r) = s\<lparr>parent := Some (Suc a)\<rparr> # linked (Suc a) (t # r)"

text \<open>
  Moving objects \<open>b\<close> addresses up in the store, and the stores whose links stay inside
  the store.
\<close>

definition shift :: "nat \<Rightarrow> segment \<Rightarrow> segment" where
  "shift b s = s\<lparr>parent := map_option (\<lambda>p. b + p) (parent s)\<rparr>"

definition wf_parents :: "heap \<Rightarrow> bool" where
  "wf_parents L = (\<forall>i<length L. case parent (L ! i) of None \<Rightarrow> True | Some p \<Rightarrow> p < length L)"

section \<open>The matcher\<close>

lemma rmatch_star:
  "rmatch (Star c # r) pre s opens caps = Some m \<Longrightarrow>
   \<exists>k\<le>length s. (\<forall>x\<in>set (take k s). in_class c x) \<and>
     rmatch r (rev (take k s) @ pre) (drop k s) opens caps = Some m"
proof (induction s arbitrary: pre)
  case Nil
  then show ?case by simp
next
  case (Cons x xs)
  show ?case
  proof (cases "in_class c x \<and> rmatch (Star c # r) (x # pre) xs opens caps \<noteq> None")
    case True
    with Cons.prems have "rmatch (Star c # r) (x # pre) xs opens caps = Some m"
      by auto
    from Cons.IH [OF this] obtain k where k: "k \<le> length xs"
      "\<forall>y\<in>set (take k xs). in_class c y"
      "rmatch r (rev (take k xs) @ x # pre) (drop k xs) opens caps = Some m"
      by blast
    with True show ?thesis
      by (intro exI [of _ "Suc k"]) simp
  next
    case False
    with Cons.prems have "rmatch r pre (x # xs) opens caps = Some m"
      by (auto split: if_splits option.splits)
    then show ?thesis
      by (intro exI [of _ 0]) simp
  qed
qed

lemma rmatch_lit:
  "rmatch r pre s opens caps = Some m \<Longrightarrow> Chr (Lit l) \<in> set r \<Longrightarrow> l \<in> set s"
proof (induction r pre s opens caps rule: rmatch.induct)
  case (4 c r pre s opens caps)
  then show ?case by (cases s) (auto split: if_splits)
next
  case (5 c r pre s opens caps)
  then show ?case by (cases s) (auto split: if_splits option.splits)
next
  case (6 c r pre s opens caps)
  then show ?case by (cases s) (auto split: if_splits)
next
  case (8 r pre s opens caps)
  then show ?case by (cases opens) auto
qed (auto split: if_splits)

lemma exec_from_lit:
  "exec_from r pre s = Some caps \<Longrightarrow> Chr (Lit l) \<in> set r \<Longrightarrow> l \<in> set s"
proof (induction s arbitrary: pre)
  case Nil
  then show ?case by (auto split: option.splits dest: rmatch_lit)
next
  case (Cons x xs)
  then show ?case by (auto split: option.splits dest: rmatch_lit)
qed

lemma exec_from_sound:
  "exec_from r pre s = Some caps \<Longrightarrow>
   \<exists>p t rest. s = p @ t \<and> rmatch r (rev p @ pre) t [] [] = Some (caps, rest)"
proof (induction s arbitrary: pre)
  case Nil
  then show ?case by (auto split: option.splits)
next
  case (Cons x xs)
  show ?case
  proof (cases "rmatch r pre (x # xs) [] []")
    case None
    with Cons.prems have "exec_from r (x # pre) xs = Some caps" by simp
    from Cons.IH [OF this] obtain p t rest where "xs = p @ t"
      "rmatch r (rev p @ x # pre) t [] [] = Some (caps, rest)" by blast
    then show ?thesis
      by (intro exI [of _ "x # p"] exI [of _ t] exI [of _ rest]) simp
  next
    case (Some m)
    with Cons.prems show ?thesis
      by (intro exI [of _ "[]"] exI [of _ "x # xs"] exI [of _ "snd m"]) (auto split: prod.splits)
  qed
qed

lemma slot_never: "regex_match s slotRegex = None"
proof -
  have "rmatch slotRegex pre t [] [] = None" for pre t
    by (cases t) (simp_all add: slotRegex_def)
  then have "exec_from slotRegex pre t = None" for pre t
    by (induction t arbitrary: pre) simp_all
  then show ?thesis by (simp add: regex_match_def)
qed

lemma is_word_simps [simp]:
  "\<not> is_word (CHR ''('')" "\<not> is_word (CHR '')'')" "\<not> is_word (CHR ''['')"
  "\<not> is_word (CHR '']'')" "\<not> is_word (CHR 0x22)" "\<not> is_word (CHR '','')" "\<not> is_word (CHR ''.'')"
  by (simp_all add: is_word_def)

declare rmatch.simps(5) [simp del]

lemma rmatch_Star_Nil [simp]:
  "rmatch (Star c # r) pre [] opens caps = rmatch r pre [] opens caps"
  by (simp add: rmatch.simps(5))

lemma rmatch_Star_Cons [simp]:
  "rmatch (Star c # r) pre (x # xs) opens caps =
     (if in_class c x
      then (case rmatch (Star c # r) (x # pre) xs opens caps of
              Some m \<Rightarrow> Some m
            | None \<Rightarrow> rmatch r pre (x # xs) opens caps)
      else rmatch r pre (x # xs) opens caps)"
  by (simp add: rmatch.simps(5))

lemma capture_text [simp]: "rev (take (length t) (rev t @ pre)) = t"
  by simp

lemma star_word_end:
  "rmatch [Star Word, GroupClose, Eos] pre s [k] caps =
     (if \<forall>c\<in>set s. is_word c
      then Some (caps @ [rev (take (length s + length pre - k) (rev s @ pre))], [])
      else None)"
proof (induction s arbitrary: pre)
  case Nil
  then show ?case by simp
next
  case (Cons x xs)
  show ?case
  proof (cases "is_word x")
    case True
    then show ?thesis by (simp add: Cons.IH)
  next
    case False
    then show ?thesis by simp
  qed
qed

lemma attribute_exec_later: "pre \<noteq> [] \<Longrightarrow> exec_from attributeRegex pre s = None"
  by (induction s arbitrary: pre) (simp_all add: attributeRegex_def)

lemma attribute_match:
  "regex_match s attributeRegex =
     (if s \<noteq> [] \<and> (\<forall>c\<in>set s. is_word c) then Some [s] else None)"
proof (cases s)
  case Nil
  then show ?thesis by (simp add: regex_match_def attributeRegex_def)
next
  case (Cons x xs)
  have later: "exec_from attributeRegex [x] xs = None"
    by (rule attribute_exec_later) simp
  have "rmatch attributeRegex [] (x # xs) [] [] =
      (if is_word x \<and> (\<forall>c\<in>set xs. is_word c) then Some ([x # xs], []) else None)"
    by (simp add: attributeRegex_def star_word_end)
  with later Cons show ?thesis
    by (simp add: regex_match_def)
qed

lemma attribute_test: "regex_test attributeRegex s = (s \<noteq> [] \<and> (\<forall>c\<in>set s. is_word c))"
  by (simp add: regex_test_def attribute_match)

lemma word_not_method: "regex_test attributeRegex s \<Longrightarrow> \<not> regex_test methodRegex s"
proof
  assume w: "regex_test attributeRegex s" and "regex_test methodRegex s"
  then obtain caps where "exec_from methodRegex [] s = Some caps"
    by (auto simp: regex_test_def regex_match_def)
  then have "CHR ''('' \<in> set s"
    by (rule exec_from_lit) (simp add: methodRegex_def)
  with w show False by (auto simp: attribute_test)
qed

lemma word_not_enum: "regex_test attributeRegex s \<Longrightarrow> \<not> regex_test enumRegex s"
proof
  assume w: "regex_test attributeRegex s" and "regex_test enumRegex s"
  then obtain caps where "exec_from enumRegex [] s = Some caps"
    by (auto simp: regex_test_def regex_match_def)
  then have "CHR ''['' \<in> set s"
    by (rule exec_from_lit) (simp add: enumRegex_def)
  with w show False by (auto simp: attribute_test)
qed

lemma method_sound:
  assumes "regex_match v methodRegex = Some caps"
  shows "\<exists>p ident allArgs. caps = [ident, allArgs] \<and>
           v = p @ ident @ ''('' @ allArgs @ '')'' \<and>
           ident \<noteq> [] \<and> (\<forall>c\<in>set ident. is_word c) \<and>
           (\<forall>c\<in>set allArgs. \<not> is_line_terminator c)"
proof -
  from assms obtain p t rest where v: "v = p @ t"
    and m: "rmatch methodRegex (rev p) t [] [] = Some (caps, rest)"
    using exec_from_sound [of methodRegex "[]" v caps] by (auto simp: regex_match_def)
  from m obtain x xs where t: "t = x # xs" and x: "is_word x"
    and m1: "rmatch (Star Word # GroupClose # Chr (Lit (CHR ''('')) # GroupOpen # Star AnyChar #
               GroupClose # Chr (Lit (CHR '')'')) # [Eos]) (x # rev p) xs [length p] [] = Some (caps, rest)"
    by (cases t) (auto simp: methodRegex_def split: if_splits)
  from rmatch_star [OF m1] obtain k where k: "\<forall>c\<in>set (take k xs). is_word c"
    and m2: "rmatch (GroupClose # Chr (Lit (CHR ''('')) # GroupOpen # Star AnyChar #
               GroupClose # Chr (Lit (CHR '')'')) # [Eos]) (rev (take k xs) @ x # rev p) (drop k xs)
               [length p] [] = Some (caps, rest)"
    by auto
  define ident where "ident = x # take k xs"
  have cap1: "rev (take (length (rev (take k xs) @ x # rev p) - length p) (rev (take k xs) @ x # rev p)) = ident"
    using capture_text [of ident "rev p"] by (simp add: ident_def)
  from m2 obtain ys where d: "drop k xs = CHR ''('' # ys"
    and m3: "rmatch (Star AnyChar # GroupClose # Chr (Lit (CHR '')'')) # [Eos])
               (CHR ''('' # rev ident @ rev p) ys [Suc (length ident + length p)] [ident] = Some (caps, rest)"
    using cap1 by (cases "drop k xs") (auto simp: ident_def split: if_splits)
  from rmatch_star [OF m3] obtain j where j: "\<forall>c\<in>set (take j ys). \<not> is_line_terminator c"
    and m4: "rmatch (GroupClose # Chr (Lit (CHR '')'')) # [Eos])
               (rev (take j ys) @ CHR ''('' # rev ident @ rev p) (drop j ys)
               [Suc (length ident + length p)] [ident] = Some (caps, rest)"
    by auto
  define allArgs where "allArgs = take j ys"
  have cap2: "rev (take (length (rev allArgs @ CHR ''('' # rev ident @ rev p) - Suc (length ident + length p))
                (rev allArgs @ CHR ''('' # rev ident @ rev p)) = allArgs"
    using capture_text [of allArgs "CHR ''('' # rev ident @ rev p"] by simp
  from m4 have caps: "caps = [ident, allArgs]" and e: "drop j ys = '')''"
    using cap2 by (cases "drop j ys"; auto simp: allArgs_def split: if_splits)+
  have "xs = take k xs @ drop k xs" by simp
  also have "drop k xs = CHR ''('' # (take j ys @ drop j ys)" using d by simp
  finally have "xs = take k xs @ ''('' @ allArgs @ '')''"
    using e by (simp add: allArgs_def)
  with v t have "v = p @ ident @ ''('' @ allArgs @ '')''"
    by (simp add: ident_def)
  with caps x k j show ?thesis
    by (auto simp: ident_def allArgs_def)
qed

lemma enum_sound:
  assumes "regex_match v enumRegex = Some caps"
  shows "\<exists>ident ev. caps = [ident, ev] \<and> v = ident @ [CHR ''['', CHR 0x22] @ ev @ [CHR 0x22, CHR '']''] \<and>
           ident \<noteq> [] \<and> (\<forall>c\<in>set ident. is_word c)"
proof -
  from assms obtain p t rest where v: "v = p @ t"
    and m: "rmatch enumRegex (rev p) t [] [] = Some (caps, rest)"
    using exec_from_sound [of enumRegex "[]" v caps] by (auto simp: regex_match_def)
  from m have p: "p = []"
    by (cases p) (simp_all add: enumRegex_def)
  from m p obtain x xs where t: "t = x # xs" and x: "is_word x"
    and m1: "rmatch (Star Word # GroupClose # Chr (Lit (CHR ''['')) # Chr (Lit (CHR 0x22)) #
               GroupOpen # Plus WordOrSpace # GroupClose # Chr (Lit (CHR 0x22)) #
               Chr (Lit (CHR '']'')) # [Eos]) [x] xs [0] [] = Some (caps, rest)"
    by (cases t) (auto simp: enumRegex_def split: if_splits)
  from rmatch_star [OF m1] obtain k where k: "\<forall>c\<in>set (take k xs). is_word c"
    and m2: "rmatch (GroupClose # Chr (Lit (CHR ''['')) # Chr (Lit (CHR 0x22)) #
               GroupOpen # Plus WordOrSpace # GroupClose # Chr (Lit (CHR 0x22)) #
               Chr (Lit (CHR '']'')) # [Eos]) (rev (take k xs) @ [x]) (drop k xs) [0] [] = Some (caps, rest)"
    by auto
  define ident where "ident = x # take k xs"
  from m2 obtain y ys where d: "drop k xs = CHR ''['' # CHR 0x22 # y # ys"
    and m3: "rmatch (Star WordOrSpace # GroupClose # Chr (Lit (CHR 0x22)) #
               Chr (Lit (CHR '']'')) # [Eos]) (y # CHR 0x22 # CHR ''['' # rev ident) ys
               [Suc (Suc (length ident))] [ident] = Some (caps, rest)"
    apply (cases "drop k xs"; simp add: ident_def split: if_splits)
    subgoal for a as
      apply (cases as; simp split: if_splits)
      subgoal for b bs
        by (cases bs; simp split: if_splits)
      done
    done
  from rmatch_star [OF m3] obtain j where
    m4: "rmatch (GroupClose # Chr (Lit (CHR 0x22)) # Chr (Lit (CHR '']'')) # [Eos])
               (rev (take j ys) @ y # CHR 0x22 # CHR ''['' # rev ident) (drop j ys)
               [Suc (Suc (length ident))] [ident] = Some (caps, rest)"
    by auto
  define ev where "ev = y # take j ys"
  have cap2: "rev (take (length (rev ev @ CHR 0x22 # CHR ''['' # rev ident) - Suc (Suc (length ident)))
                (rev ev @ CHR 0x22 # CHR ''['' # rev ident)) = ev"
    using capture_text [of ev "CHR 0x22 # CHR ''['' # rev ident"] by simp
  from m4 have e: "drop j ys = [CHR 0x22, CHR '']'']"
    apply (cases "drop j ys"; simp split: if_splits)
    subgoal for a as
      by (cases as; simp split: if_splits)
    done
  from m4 e have caps: "caps = [ident, ev]"
    using cap2 by (simp add: ev_def)
  have "xs = take k xs @ drop k xs" by simp
  also have "drop k xs = CHR ''['' # CHR 0x22 # y # (take j ys @ drop j ys)" using d by simp
  finally have "xs = take k xs @ [CHR ''['', CHR 0x22] @ ev @ [CHR 0x22, CHR '']'']"
    using e by (simp add: ev_def)
  with v t p have "v = ident @ [CHR ''['', CHR 0x22] @ ev @ [CHR 0x22, CHR '']'']"
    by (simp add: ident_def)
  with caps x k show ?thesis
    by (auto simp: ident_def)
qed


section \<open>The argument list\<close>

lemma star_space: "rmatch [Star WhiteSpace] pre s opens caps = Some (caps, dropWhile is_space s)"
  by (induction s arbitrary: pre) simp_all

lemma argSeparator_at:
  "rmatch argSeparator pre (x # xs) [] [] =
     (if x = CHR '','' then Some ([], dropWhile is_space xs) else None)"
  by (simp add: argSeparator_def star_space)

lemma split_nonempty: "split sep s \<noteq> []"
  by (induction s) (auto split: list.splits)

lemma not_space_comma [simp]: "\<not> is_space (CHR '','')"
  by (simp add: is_space_def)

lemma split_dropWhile:
  "split (CHR '','') (dropWhile is_space s) =
     (case split (CHR '','') s of [] \<Rightarrow> [] | p # ps \<Rightarrow> dropWhile is_space p # ps)"
proof (induction s)
  case Nil
  then show ?case by simp
next
  case (Cons x xs)
  then show ?case
    using split_nonempty [of "CHR '',''" xs]
    by (cases "split (CHR '','') xs") auto
qed

declare regex_split_from.simps [simp del]

lemma regex_split_from_comma:
  "regex_split_from argSeparator pre cur s =
     (case split (CHR '','') s of
        [] \<Rightarrow> []
      | p # ps \<Rightarrow> (rev cur @ p) # map (dropWhile is_space) ps)"
proof (induction s arbitrary: pre cur rule: length_induct)
  case (1 s)
  show ?case
  proof (cases s)
    case Nil
    then show ?thesis by (subst regex_split_from.simps) simp
  next
    case (Cons x xs)
    show ?thesis
    proof (cases "x = CHR '',''")
      case True
      have len: "length (dropWhile is_space xs) < length s"
        using Cons length_dropWhile_le [of is_space xs] by simp
      have "regex_split_from argSeparator pre cur s =
          rev cur # regex_split_from argSeparator
             (rev (take (length s - length (dropWhile is_space xs)) s) @ pre) [] (dropWhile is_space xs)"
        using Cons True len by (subst regex_split_from.simps) (simp add: argSeparator_at)
      also have "regex_split_from argSeparator
             (rev (take (length s - length (dropWhile is_space xs)) s) @ pre) [] (dropWhile is_space xs) =
          (case split (CHR '','') (dropWhile is_space xs) of [] \<Rightarrow> []
           | p # ps \<Rightarrow> (rev [] @ p) # map (dropWhile is_space) ps)"
        using 1 len by blast
      finally show ?thesis
        using Cons True split_nonempty [of "CHR '',''" xs]
        by (cases "split (CHR '','') xs") (simp_all add: split_dropWhile)
    next
      case False
      have "regex_split_from argSeparator pre cur s =
          regex_split_from argSeparator (x # pre) (x # cur) xs"
        using Cons False by (subst regex_split_from.simps) (simp add: argSeparator_at)
      also have "\<dots> = (case split (CHR '','') xs of [] \<Rightarrow> []
           | p # ps \<Rightarrow> (rev (x # cur) @ p) # map (dropWhile is_space) ps)"
        using 1 Cons by simp
      finally show ?thesis
        using Cons False split_nonempty [of "CHR '',''" xs]
        by (cases "split (CHR '','') xs") simp_all
    qed
  qed
qed

lemma args_refine:
  "filter (\<lambda>arg. arg \<noteq> []) (regex_split allArgs argSeparator) = spec_args allArgs"
proof (cases allArgs)
  case Nil
  then show ?thesis by (simp add: regex_split_def spec_args_def argSeparator_def)
next
  case (Cons x xs)
  then show ?thesis
    by (simp add: regex_split_def spec_args_def regex_split_from_comma del: split.simps
          split: list.splits)
qed

section \<open>The loop of the parser\<close>

declare while_loop.simps [simp del]

lemma slot_test [simp]: "\<not> regex_test slotRegex v"
  by (simp add: regex_test_def slot_never)

lemma method_caps:
  "regex_test methodRegex v \<Longrightarrow> \<exists>i a. regex_match v methodRegex = Some [i, a]"
  using method_sound [of v] by (fastforce simp: regex_test_def)

lemma enum_caps:
  "regex_test enumRegex v \<Longrightarrow> \<exists>i e. regex_match v enumRegex = Some [i, e]"
  using enum_sound [of v] by (fastforce simp: regex_test_def)

lemma token_object_None: "token_object v remain = None \<longleftrightarrow> \<not> classifiable v"
proof (cases "regex_test methodRegex v")
  case True
  with method_caps [of v] show ?thesis
    by (auto simp: token_object_def classifiable_def)
next
  case nm: False
  show ?thesis
  proof (cases "regex_test enumRegex v")
    case True
    with nm enum_caps [of v] show ?thesis
      by (auto simp: token_object_def classifiable_def)
  next
    case False
    with nm show ?thesis
      by (simp add: token_object_def classifiable_def)
  qed
qed

lemma while_loop_Nil: "while_loop [] count results h = (Inr results, h)"
  by (simp add: while_loop.simps)

lemma while_loop_snoc:
  "while_loop (ts @ [v]) count results h =
     (case token_object v (ts \<noteq> []) of
        None \<Rightarrow> (Inl (SyntaxError v count), h)
      | Some seg \<Rightarrow> while_loop ts (count - 1) (results @ [length h]) (h @ [seg]))"
proof (cases "regex_test methodRegex v")
  case True
  with method_caps [of v] show ?thesis
    by (subst while_loop.simps) (auto simp: token_object_def new_segment_def)
next
  case nm: False
  show ?thesis
  proof (cases "regex_test enumRegex v")
    case True
    with nm enum_caps [of v] show ?thesis
      by (subst while_loop.simps) (auto simp: token_object_def new_segment_def)
  next
    case ne: False
    show ?thesis
    proof (cases "regex_test attributeRegex v")
      case True
      then have m: "regex_match v attributeRegex = Some [v]"
        by (simp add: attribute_match attribute_test)
      show ?thesis
        by (subst while_loop.simps)
          (simp add: token_object_def new_segment_def nm ne True m)
    next
      case False
      show ?thesis
        by (subst while_loop.simps)
          (simp add: token_object_def new_segment_def nm ne False)
    qed
  qed
qed

lemma objs_snoc: "objs (ts @ [v]) = objs ts @ [the (token_object v (ts \<noteq> []))]"
  by (simp add: objs_def nth_append)

lemma length_objs [simp]: "length (objs ts) = length ts"
  by (simp add: objs_def)

lemma while_loop_ok:
  "\<forall>t\<in>set ts. classifiable t \<Longrightarrow>
   while_loop ts count results h =
     (Inr (results @ [length h..<length h + length ts]), h @ rev (objs ts))"
proof (induction ts arbitrary: count results h rule: rev_induct)
  case Nil
  then show ?case by (simp add: while_loop_Nil objs_def)
next
  case (snoc v ts)
  from snoc.prems obtain seg where seg: "token_object v (ts \<noteq> []) = Some seg"
    using token_object_None [of v "ts \<noteq> []"] by auto
  have "[length h..<length h + length (ts @ [v])] =
        length h # [Suc (length h)..<Suc (length h) + length ts]"
    by (subst upt_rec) simp
  with snoc seg show ?case
    by (simp add: while_loop_snoc objs_snoc)
qed

lemma while_loop_err:
  "\<not> classifiable t \<Longrightarrow> \<forall>v\<in>set vs. classifiable v \<Longrightarrow>
   while_loop (us @ t # vs) (int (length (us @ t # vs))) results h =
     (Inl (SyntaxError t (int (length us) + 1)),
      h @ rev (map (\<lambda>v. the (token_object v True)) vs))"
proof (induction vs arbitrary: results h rule: rev_induct)
  case Nil
  then have "token_object t (us \<noteq> []) = None"
    by (simp add: token_object_None)
  then show ?case
    by (simp add: while_loop_snoc)
next
  case (snoc v vs)
  from snoc.prems obtain seg where seg: "token_object v True = Some seg"
    using token_object_None [of v True] by auto
  have "while_loop ((us @ t # vs) @ [v]) (int (length (us @ t # vs @ [v]))) results h =
      while_loop (us @ t # vs) (int (length (us @ t # vs))) (results @ [length h]) (h @ [seg])"
    by (subst while_loop_snoc) (simp add: seg)
  with snoc seg show ?case by simp
qed

section \<open>Linking and the result of the parser\<close>

lemma length_linked [simp]: "length (linked a S) = length S"
  by (induction a S rule: linked.induct) simp_all

lemma linked_nth:
  "i < length S \<Longrightarrow>
   linked a S ! i = (S ! i)\<lparr>parent := if Suc i < length S then Some (a + Suc i) else None\<rparr>"
proof (induction a S arbitrary: i rule: linked.induct)
  case (1 a)
  then show ?case by simp
next
  case (2 a s)
  then show ?case by simp
next
  case (3 a s t r)
  then show ?case by (cases i) simp_all
qed

lemma link_list_append:
  "link_list [length h..<length h + length S] (h @ S) = h @ linked (length h) S"
proof (induction S arbitrary: h)
  case Nil
  then show ?case by simp
next
  case (Cons s S)
  show ?case
  proof (cases S)
    case Nil
    then show ?thesis by simp
  next
    case (Cons t r)
    have u1: "[length h..<length h + length (s # t # r)] =
        length h # [Suc (length h)..<length h + length (s # t # r)]"
      by (rule upt_conv_Cons) simp
    have u2: "[Suc (length h)..<length h + length (s # t # r)] =
        Suc (length h) # [Suc (Suc (length h))..<length h + length (s # t # r)]"
      by (rule upt_conv_Cons) simp
    have u3: "Suc (length h) # [Suc (Suc (length h))..<length h + length (s # t # r)] =
        [length (h @ [s\<lparr>parent := Some (Suc (length h))\<rparr>])..<
         length (h @ [s\<lparr>parent := Some (Suc (length h))\<rparr>]) + length (t # r)]"
      using u2 by simp
    have "link_list [length h..<length h + length (s # t # r)] (h @ s # t # r) =
        link_list (Suc (length h) # [Suc (Suc (length h))..<length h + length (s # t # r)])
          ((h @ [s\<lparr>parent := Some (Suc (length h))\<rparr>]) @ t # r)"
      unfolding u1 u2 by simp
    also have "\<dots> = link_list [length (h @ [s\<lparr>parent := Some (Suc (length h))\<rparr>])..<
                   length (h @ [s\<lparr>parent := Some (Suc (length h))\<rparr>]) + length (t # r)]
          ((h @ [s\<lparr>parent := Some (Suc (length h))\<rparr>]) @ t # r)"
      unfolding u3 ..
    also have "\<dots> = (h @ [s\<lparr>parent := Some (Suc (length h))\<rparr>]) @
        linked (length (h @ [s\<lparr>parent := Some (Suc (length h))\<rparr>])) (t # r)"
      using Cons.IH [of "h @ [s\<lparr>parent := Some (Suc (length h))\<rparr>]"] Cons by simp
    finally show ?thesis using Cons by simp
  qed
qed

lemma parse_ok:
  assumes "\<forall>t\<in>set (split (CHR ''.'') str). classifiable t"
  shows "parseInlineIDL str h =
     (Inr (rev [length h..<length h + length (split (CHR ''.'') str)]),
      h @ linked (length h) (rev (objs (split (CHR ''.'') str))))"
  using link_list_append [of h "rev (objs (split (CHR ''.'') str))"]
  by (simp add: parseInlineIDL_def Let_def while_loop_ok [OF assms])

lemma parse_err:
  assumes "split (CHR ''.'') str = us @ t # vs" "\<not> classifiable t" "\<forall>v\<in>set vs. classifiable v"
  shows "parseInlineIDL str h =
     (Inl (SyntaxError t (int (length us) + 1)),
      h @ rev (map (\<lambda>v. the (token_object v True)) vs))"
  using while_loop_err [OF assms(2,3), of us "[]" h]
  by (simp add: parseInlineIDL_def assms(1))

lemma parse_cases:
  obtains (ok) "\<forall>t\<in>set (split (CHR ''.'') str). classifiable t"
  | (err) us t vs where "split (CHR ''.'') str = us @ t # vs" "\<not> classifiable t"
      "\<forall>v\<in>set vs. classifiable v"
proof (cases "\<forall>t\<in>set (split (CHR ''.'') str). classifiable t")
  case True
  then show ?thesis by (rule ok)
next
  case False
  then have "\<exists>t\<in>set (split (CHR ''.'') str). \<not> classifiable t" by simp
  from split_list_last_prop [OF this] obtain us t vs where
    "split (CHR ''.'') str = us @ t # vs" "\<not> classifiable t" "\<forall>v\<in>set vs. \<not> \<not> classifiable v"
    by blast
  then show ?thesis using err by simp
qed

lemma chain_nth:
  "k < n \<Longrightarrow> rev [b..<b + n] ! k = b + (n - Suc k)"
  by (simp add: rev_nth)

lemma segment_at:
  assumes ok: "\<forall>t\<in>set (split (CHR ''.'') str). classifiable t"
    and k: "k < length (split (CHR ''.'') str)"
  shows "snd (parseInlineIDL str h) ! (projr (fst (parseInlineIDL str h)) ! k) =
      (the (token_object (split (CHR ''.'') str ! k) (0 < k)))
        \<lparr>parent := if 0 < k then Some (projr (fst (parseInlineIDL str h)) ! (k - 1)) else None\<rparr>"
proof -
  let ?ts = "split (CHR ''.'') str"
  let ?n = "length ?ts"
  have a: "projr (fst (parseInlineIDL str h)) ! k = length h + (?n - Suc k)"
    using k by (simp add: parse_ok [OF ok] chain_nth)
  have b: "0 < k \<Longrightarrow> projr (fst (parseInlineIDL str h)) ! (k - 1) = length h + (?n - k)"
    using k by (simp add: parse_ok [OF ok] chain_nth)
  have "snd (parseInlineIDL str h) ! (length h + (?n - Suc k)) =
      linked (length h) (rev (objs ?ts)) ! (?n - Suc k)"
    by (simp add: parse_ok [OF ok])
  also have "\<dots> = (rev (objs ?ts) ! (?n - Suc k))
      \<lparr>parent := if Suc (?n - Suc k) < ?n then Some (length h + Suc (?n - Suc k)) else None\<rparr>"
    using k by (subst linked_nth) simp_all
  also have "rev (objs ?ts) ! (?n - Suc k) = objs ?ts ! k"
    using k by (simp add: rev_nth)
  also have "objs ?ts ! k = the (token_object (?ts ! k) (0 < k))"
    using k by (simp add: objs_def)
  finally have c: "snd (parseInlineIDL str h) ! (length h + (?n - Suc k)) =
      (the (token_object (?ts ! k) (0 < k)))
        \<lparr>parent := if Suc (?n - Suc k) < ?n then Some (length h + Suc (?n - Suc k)) else None\<rparr>" .
  have d: "Suc (?n - Suc k) = ?n - k" using k by simp
  have e: "?n - k < ?n \<longleftrightarrow> 0 < k" using k by auto
  show ?thesis unfolding a c d e using b by simp
qed

lemma parse_Inr_ok:
  assumes "parseInlineIDL str h = (Inr chain, h')"
  shows "\<forall>t\<in>set (split (CHR ''.'') str). classifiable t"
proof (cases str rule: parse_cases)
  case ok
  then show ?thesis .
next
  case (err us t vs)
  from parse_err [OF err, of h] assms show ?thesis by simp
qed

lemma parse_Inr_chain:
  assumes "parseInlineIDL str h = (Inr chain, h')"
  shows "chain = rev [length h..<length h + length (split (CHR ''.'') str)]"
  using parse_ok [OF parse_Inr_ok [OF assms], of h] assms by simp

lemma parse_Inr_segment:
  assumes p: "parseInlineIDL str h = (Inr chain, h')" and k: "k < length chain"
  shows "h' ! (chain ! k) =
      (the (token_object (split (CHR ''.'') str ! k) (0 < k)))
        \<lparr>parent := if 0 < k then Some (chain ! (k - 1)) else None\<rparr>"
proof -
  from k have "k < length (split (CHR ''.'') str)"
    by (simp add: parse_Inr_chain [OF p])
  from segment_at [OF parse_Inr_ok [OF p] this, of h] show ?thesis
    by (simp add: p)
qed

lemma token_object_word:
  assumes "regex_test attributeRegex v"
  shows "token_object v r = Some (new_segment (if r then ''attribute'' else ''base'') v)"
  using assms word_not_method [OF assms] word_not_enum [OF assms]
  by (simp add: token_object_def)

lemma token_object_not_base:
  "token_object v True = Some s \<Longrightarrow> type s \<noteq> ''base''"
  by (auto simp: token_object_def new_segment_def split: if_splits option.splits list.splits)

lemma enum_not_method:
  assumes "regex_test enumRegex v"
  shows "\<not> regex_test methodRegex v"
proof
  assume "regex_test methodRegex v"
  then obtain c1 where "regex_match v methodRegex = Some c1"
    by (auto simp: regex_test_def)
  from method_sound [OF this] have "last v = CHR '')''" by auto
  moreover from assms obtain c2 where "regex_match v enumRegex = Some c2"
    by (auto simp: regex_test_def)
  from enum_sound [OF this] have "last v = CHR '']''" by auto
  ultimately show False by simp
qed

lemma token_object_enum:
  assumes "regex_test enumRegex v" "token_object v r = Some s"
  shows "type s = ''enum-value''"
  using assms enum_not_method [OF assms(1)]
  by (auto simp: token_object_def new_segment_def split: option.splits list.splits)

lemma token_object_method:
  assumes "regex_match v methodRegex = Some [i, a]"
  shows "token_object v r =
     Some ((new_segment ''method'' i)\<lparr>args := Some (spec_args a)\<rparr>)"
  using assms by (simp add: token_object_def regex_test_def args_refine)



lemma slot_token_unclassifiable: "\<not> classifiable (''[['' @ name @ '']]'')"
proof -
  let ?v = "''[['' @ name @ '']]''"
  have "\<not> regex_test methodRegex ?v"
  proof
    assume "regex_test methodRegex ?v"
    then obtain c where "regex_match ?v methodRegex = Some c"
      by (auto simp: regex_test_def)
    from method_sound [OF this] have "last ?v = CHR '')''" by auto
    then show False by simp
  qed
  moreover have "\<not> regex_test enumRegex ?v"
  proof
    assume "regex_test enumRegex ?v"
    then obtain c where "regex_match ?v enumRegex = Some c"
      by (auto simp: regex_test_def)
    from enum_sound [OF this] obtain ident ev where
      "?v = ident @ [CHR ''['', CHR 0x22] @ ev @ [CHR 0x22, CHR '']'']" "ident \<noteq> []"
      "\<forall>c\<in>set ident. is_word c"
      by blast
    then have "is_word (hd ?v)" by (cases ident) auto
    then show False by simp
  qed
  moreover have "\<not> regex_test attributeRegex ?v"
    by (simp add: attribute_test)
  ultimately show ?thesis by (simp add: classifiable_def)
qed

text \<open>
  When the parser throws, in terms of the patterns of the source: exactly when some
  token is not classifiable, and then with the rightmost such token and its position
  counted from 1 at the left.
\<close>

lemma throws_iff_unclassifiable:
  "((\<exists>e. fst (parseInlineIDL str h) = Inl e) \<longleftrightarrow>
      (\<exists>t\<in>set (split (CHR ''.'') str). \<not> classifiable t)) \<and>
   (\<forall>e. fst (parseInlineIDL str h) = Inl e \<longrightarrow>
      (\<exists>us t vs. split (CHR ''.'') str = us @ t # vs \<and> \<not> classifiable t \<and>
         (\<forall>v\<in>set vs. classifiable v) \<and> e = SyntaxError t (int (length us) + 1)))"
proof (cases str rule: parse_cases)
  case ok
  from parse_ok [OF ok, of h] ok show ?thesis by simp
next
  case (err us t vs)
  from err(1) have "t \<in> set (split (CHR ''.'') str)" by simp
  with parse_err [OF err, of h] err show ?thesis by auto
qed

text \<open>
  The patterns of the source accept no more than those of the specification, so a
  token that the specification rejects makes the parser throw.
\<close>

lemma classifiable_spec: "classifiable v \<Longrightarrow> spec_classifiable v"
  by (auto simp: classifiable_def spec_classifiable_def)

lemma spec_unclassifiable_throws:
  assumes "t \<in> set (split (CHR ''.'') str)" and "\<not> spec_classifiable t"
  shows "\<exists>e. fst (parseInlineIDL str h) = Inl e"
proof -
  from assms have "\<exists>t\<in>set (split (CHR ''.'') str). \<not> classifiable t"
    using classifiable_spec by blast
  with throws_iff_unclassifiable [of str h] show ?thesis by blast
qed

section \<open>Rendering does not depend on the store it starts in\<close>

lemma shift_fields [simp]:
  "type (shift b s) = type s" "identifier (shift b s) = identifier s"
  "args (shift b s) = args s" "enumValue (shift b s) = enumValue s"
  "idlType (shift b s) = idlType s" "parent (shift b s) = map_option (\<lambda>p. b + p) (parent s)"
  "shift b (s\<lparr>idlType := v\<rparr>) = (shift b s)\<lparr>idlType := v\<rparr>"
  by (simp_all add: shift_def)

lemma reloc_nth:
  "i < length L \<Longrightarrow> (h @ map (shift (length h)) L) ! (length h + i) = shift (length h) (L ! i)"
  by (simp add: nth_append)

lemma reloc_update:
  "i < length L \<Longrightarrow>
   (h @ map (shift (length h)) L)[length h + i := shift (length h) s] =
   h @ map (shift (length h)) (L[i := s])"
  by (simp add: list_update_append map_update)

lemma wf_parents_idlType:
  "wf_parents L \<Longrightarrow> i < length L \<Longrightarrow> wf_parents (L[i := (L ! i)\<lparr>idlType := v\<rparr>])"
  unfolding wf_parents_def
  by (auto simp: nth_list_update split: option.splits)

lemma wf_parents_nth:
  "wf_parents L \<Longrightarrow> i < length L \<Longrightarrow> parent (L ! i) = Some p \<Longrightarrow> p < length L"
  unfolding wf_parents_def by (auto split: option.splits)

lemma renderBase_reloc:
  assumes "i < length L"
  shows "renderBase (length h + i) ctx (h @ map (shift (length h)) L) =
     (fst (renderBase i ctx L), h @ map (shift (length h)) (snd (renderBase i ctx L)))"
  using assms
  by (simp add: renderBase_def Let_def reloc_nth reloc_update [symmetric] del: shift_fields(7))
     (simp add: reloc_update)


lemma renderBase_heap:
  assumes "i < length L"
  shows "\<exists>v. snd (renderBase i ctx L) = L[i := (L ! i)\<lparr>idlType := v\<rparr>]"
  using assms by (auto simp: renderBase_def Let_def)

lemma renderInternalSlot_reloc:
  assumes "i < length L"
  shows "renderInternalSlot doc (length h + i) (h @ map (shift (length h)) L) =
     (fst (renderInternalSlot doc i L), h @ map (shift (length h)) (snd (renderInternalSlot doc i L)))"
  using assms
  by (simp add: renderInternalSlot_def Let_def reloc_nth reloc_update [symmetric] del: shift_fields(7))
     (simp add: reloc_update)

lemma renderInternalSlot_heap:
  assumes "i < length L"
  shows "\<exists>v. snd (renderInternalSlot doc i L) = L[i := (L ! i)\<lparr>idlType := v\<rparr>]"
  using assms by (auto simp: renderInternalSlot_def Let_def)

lemma renderAttribute_reloc:
  assumes "i < length L" "wf_parents L"
  shows "renderAttribute (length h + i) (h @ map (shift (length h)) L) = renderAttribute i L"
proof (cases "parent (L ! i)")
  case None
  with assms show ?thesis
    by (simp add: renderAttribute_def Let_def reloc_nth)
next
  case (Some p)
  with assms have "p < length L" by (auto dest: wf_parents_nth)
  with assms Some show ?thesis
    by (simp add: renderAttribute_def Let_def reloc_nth)
qed

lemma renderMethod_reloc:
  assumes "i < length L" "wf_parents L"
  shows "renderMethod (length h + i) ctx (h @ map (shift (length h)) L) = renderMethod i ctx L"
proof (cases "parent (L ! i)")
  case None
  with assms show ?thesis
    by (simp add: renderMethod_def Let_def reloc_nth)
next
  case (Some p)
  with assms have "p < length L" by (auto dest: wf_parents_nth)
  with assms Some show ?thesis
    by (simp add: renderMethod_def Let_def reloc_nth)
qed

lemma renderEnum_reloc:
  assumes "i < length L"
  shows "renderEnum (length h + i) (h @ map (shift (length h)) L) = renderEnum i L"
  using assms by (simp add: renderEnum_def Let_def reloc_nth)

lemma render_loop_reloc:
  assumes "\<forall>i\<in>set is. i < length L" "wf_parents L"
  shows "render_loop doc ctx (map (\<lambda>i. length h + i) is) out (h @ map (shift (length h)) L) =
     (fst (render_loop doc ctx is out L),
      h @ map (shift (length h)) (snd (render_loop doc ctx is out L)))"
  using assms
proof (induction "is" arbitrary: out L)
  case Nil
  then show ?case by simp
next
  case (Cons i "is")
  then have i: "i < length L" and rest: "\<forall>j\<in>set is. j < length L" and wf: "wf_parents L"
    by simp_all
  have ty: "type ((h @ map (shift (length h)) L) ! (length h + i)) = type (L ! i)"
    using i by (simp add: nth_append)
  consider (base) "type (L ! i) = ''base''"
    | (attr) "type (L ! i) = ''attribute''"
    | (slot) "type (L ! i) = ''internal-slot''"
    | (meth) "type (L ! i) = ''method''"
    | (enum) "type (L ! i) = ''enum-value''"
    | (other) "type (L ! i) \<notin> {''base'', ''attribute'', ''internal-slot'', ''method'', ''enum-value''}"
    by blast
  then show ?case
  proof cases
    case base
    obtain v where L': "snd (renderBase i ctx L) = L[i := (L ! i)\<lparr>idlType := v\<rparr>]"
      using renderBase_heap [OF i] by blast
    have wf': "wf_parents (snd (renderBase i ctx L))"
      unfolding L' using wf i by (rule wf_parents_idlType)
    have rest': "\<forall>j\<in>set is. j < length (snd (renderBase i ctx L))"
      unfolding L' using rest by simp
    show ?thesis
      using base Cons.IH [OF rest' wf']
      by (simp add: i renderBase_reloc [OF i] split: prod.splits)
  next
    case attr
    then show ?thesis
      using Cons.IH [OF rest wf]
      by (simp add: i renderAttribute_reloc [OF i wf])
  next
    case slot
    obtain v where L': "snd (renderInternalSlot doc i L) = L[i := (L ! i)\<lparr>idlType := v\<rparr>]"
      using renderInternalSlot_heap [OF i] by blast
    have wf': "wf_parents (snd (renderInternalSlot doc i L))"
      unfolding L' using wf i by (rule wf_parents_idlType)
    have rest': "\<forall>j\<in>set is. j < length (snd (renderInternalSlot doc i L))"
      unfolding L' using rest by simp
    show ?thesis
      using slot Cons.IH [OF rest' wf']
      by (simp add: i renderInternalSlot_reloc [OF i] split: prod.splits)
  next
    case meth
    then show ?thesis
      using Cons.IH [OF rest wf]
      by (simp add: i renderMethod_reloc [OF i wf] split: sum.splits)
  next
    case enum
    then show ?thesis
      using Cons.IH [OF rest wf]
      by (simp add: i renderEnum_reloc [OF i])
  next
    case other
    then show ?thesis
      by (simp add: i)
  qed
qed

lemma linked_shift: "linked (b + a) S = map (shift b) (linked a S)"
  by (induction a S rule: linked.induct) (simp_all add: shift_def)

lemma wf_parents_linked: "wf_parents (linked 0 S)"
  unfolding wf_parents_def by (auto simp: linked_nth)

lemma token_object_parent: "token_object v r = Some s \<Longrightarrow> parent s = None"
  by (auto simp: token_object_def new_segment_def split: if_splits option.splits list.splits)

lemma shift_unlinked: "parent s = None \<Longrightarrow> shift b s = s"
  by (simp add: shift_def)

lemma idlStringToHtml_reloc:
  "idlStringToHtml doc str ctx h =
     (fst (idlStringToHtml doc str ctx []),
      h @ map (shift (length h)) (snd (idlStringToHtml doc str ctx [])))"
proof (cases str rule: parse_cases)
  case ok
  let ?n = "length (split (CHR ''.'') str)"
  let ?S = "rev (objs (split (CHR ''.'') str))"
  have chain: "rev [length h..<length h + ?n] = map (\<lambda>i. length h + i) (rev [0..<?n])"
  proof -
    have "[b..<b + n] = map (\<lambda>i. b + i) [0..<n]" for b n :: nat
      by (induction n) simp_all
    then show ?thesis by (simp add: rev_map)
  qed
  have heap: "linked (length h) ?S = map (shift (length h)) (linked 0 ?S)"
    using linked_shift [of "length h" 0 ?S] by simp
  have valid: "\<forall>i\<in>set (rev [0..<?n]). i < length (linked 0 ?S)"
    by simp
  show ?thesis
    using render_loop_reloc [OF valid wf_parents_linked, of doc ctx h "[]"]
    by (simp add: idlStringToHtml_def parse_ok [OF ok] chain heap)
next
  case (err us t vs)
  have "map (shift (length h)) (map (\<lambda>v. the (token_object v True)) vs) =
        map (\<lambda>v. the (token_object v True)) vs"
    using err(3) token_object_None [of _ True]
    by (auto intro!: shift_unlinked token_object_parent [of _ True])
  then show ?thesis
    by (simp add: idlStringToHtml_def parse_err [OF err] rev_map)
qed

section \<open>The claims\<close>

subsection \<open>Internal slots\<close>

text \<open>
  C1. The claim asks that \<^verbatim>\<open>Foo.[[bar]]\<close> parse into a base and an internal slot, and
  that the slot pattern accept every token of the form \<^verbatim>\<open>[[name]]\<close>. The pattern of the
  source starts with \<^verbatim>\<open>$\<close>, which holds only at the end of the input, and then asks
  for a bracket: it matches no string at all. No other pattern accepts a token of the
  form \<^verbatim>\<open>[[name]]\<close>, and \<^verbatim>\<open>[[bar]]\<close> is reported as a syntax error at position 2.
\<close>

theorem internal_slot_rejected:
  "regex_match v slotRegex = None \<and>
   \<not> classifiable (''[['' @ name @ '']]'') \<and>
   fst (parseInlineIDL ''Foo.[[bar]]'' h) = Inl (SyntaxError ''[[bar]]'' 2)"
proof -
  have "split (CHR ''.'') ''Foo.[[bar]]'' = [''Foo''] @ ''[[bar]]'' # []" by code_simp
  moreover have "\<not> classifiable ''[[bar]]''" by code_simp
  ultimately have "fst (parseInlineIDL ''Foo.[[bar]]'' h) = Inl (SyntaxError ''[[bar]]'' 2)"
    using parse_err [of "''Foo.[[bar]]''" "[''Foo'']" "''[[bar]]''" "[]" h] by simp
  with slot_never slot_token_unclassifiable show ?thesis by simp
qed

subsection \<open>Number of segments and the base\<close>

text \<open>
  C2, as the code has it. A chain that is returned has one segment per token. A base
  can only be the first segment, so there is at most one; the first segment is a
  base when the leftmost token is a bare word, and when the leftmost token has the
  enum form \<^verbatim>\<open>name["text"]\<close> the chain has no base at all.
\<close>

theorem chain_length_and_base:
  assumes "parseInlineIDL str h = (Inr chain, h')"
  shows "length chain = length (split (CHR ''.'') str) \<and>
    (\<forall>k<length chain. type (h' ! (chain ! k)) = ''base'' \<longrightarrow> k = 0) \<and>
    (regex_test attributeRegex (hd (split (CHR ''.'') str)) \<longrightarrow>
       type (h' ! (chain ! 0)) = ''base'') \<and>
    (regex_test enumRegex (hd (split (CHR ''.'') str)) \<longrightarrow>
       (\<forall>k<length chain. type (h' ! (chain ! k)) \<noteq> ''base''))"
proof -
  let ?ts = "split (CHR ''.'') str"
  note ok = parse_Inr_ok [OF assms]
  have len: "length chain = length ?ts"
    by (simp add: parse_Inr_chain [OF assms])
  have ne: "?ts \<noteq> []" by (rule split_nonempty)
  have some: "\<exists>s. token_object (?ts ! k) r = Some s" if "k < length chain" for k r
    using that ok len token_object_None [of "?ts ! k" r] by auto
  have later: "type (h' ! (chain ! k)) \<noteq> ''base''" if "k < length chain" "0 < k" for k
  proof -
    from some [OF that(1), of True] obtain s where s: "token_object (?ts ! k) True = Some s"
      by blast
    with token_object_not_base [OF s] that show ?thesis
      by (simp add: parse_Inr_segment [OF assms that(1)])
  qed
  have first_word: "type (h' ! (chain ! 0)) = ''base''" if "regex_test attributeRegex (hd ?ts)"
  proof -
    from ne have hd: "hd ?ts = ?ts ! 0" by (simp add: hd_conv_nth)
    from ne len have "0 < length chain" by simp
    from parse_Inr_segment [OF assms this] that show ?thesis
      by (simp add: hd token_object_word new_segment_def)
  qed
  have first_enum: "type (h' ! (chain ! 0)) \<noteq> ''base''" if "regex_test enumRegex (hd ?ts)"
  proof -
    from ne have hd: "hd ?ts = ?ts ! 0" by (simp add: hd_conv_nth)
    from ne len have pos: "0 < length chain" by simp
    from some [OF pos, of False] obtain s where s: "token_object (?ts ! 0) False = Some s"
      by blast
    from token_object_enum [OF _ s] that hd have "type s = ''enum-value''" by simp
    with parse_Inr_segment [OF assms pos] s show ?thesis by simp
  qed
  have "type (h' ! (chain ! k)) \<noteq> ''base''"
    if "regex_test enumRegex (hd ?ts)" "k < length chain" for k
    using that first_enum later [of k] by (cases k) auto
  with len later first_word show ?thesis by blast
qed

text \<open>
  The theorem at a chain that starts with a bare word and at one that starts with an
  enum token.
\<close>

theorem chain_length_and_base_witness:
  \<open>(parseInlineIDL ''Foo.bar'' [] = (Inr [1, 0], snd (parseInlineIDL ''Foo.bar'' [])) \<and>
    regex_test attributeRegex (hd (split (CHR ''.'') ''Foo.bar'')) \<and>
    length [1, 0 :: nat] = length (split (CHR ''.'') ''Foo.bar'') \<and>
    type (snd (parseInlineIDL ''Foo.bar'' []) ! ([1, 0] ! 0)) = ''base'' \<and>
    type (snd (parseInlineIDL ''Foo.bar'' []) ! ([1, 0] ! 1)) \<noteq> ''base'') \<and>
   (parseInlineIDL ''E["v"].x'' [] = (Inr [1, 0], snd (parseInlineIDL ''E["v"].x'' [])) \<and>
    regex_test enumRegex (hd (split (CHR ''.'') ''E["v"].x'')) \<and>
    type (snd (parseInlineIDL ''E["v"].x'' []) ! ([1, 0] ! 0)) \<noteq> ''base'' \<and>
    type (snd (parseInlineIDL ''E["v"].x'' []) ! ([1, 0] ! 1)) \<noteq> ''base'')\<close>
proof -
  have p1: "parseInlineIDL ''Foo.bar'' [] = (Inr [1, 0], snd (parseInlineIDL ''Foo.bar'' []))"
    by code_simp
  have w1: "regex_test attributeRegex (hd (split (CHR ''.'') ''Foo.bar''))"
    by code_simp
  have p2: \<open>parseInlineIDL ''E["v"].x'' [] = (Inr [1, 0], snd (parseInlineIDL ''E["v"].x'' []))\<close>
    by code_simp
  have w2: \<open>regex_test enumRegex (hd (split (CHR ''.'') ''E["v"].x''))\<close>
    by code_simp
  from chain_length_and_base [OF p1] w1
  have a: "length [1, 0 :: nat] = length (split (CHR ''.'') ''Foo.bar'')"
    and b: "type (snd (parseInlineIDL ''Foo.bar'' []) ! ([1, 0] ! 0)) = ''base''"
    and c: "type (snd (parseInlineIDL ''Foo.bar'' []) ! ([1, 0] ! 1)) \<noteq> ''base''"
    by auto
  from chain_length_and_base [OF p2] w2
  have d: \<open>type (snd (parseInlineIDL ''E["v"].x'' []) ! ([1, 0] ! 0)) \<noteq> ''base''\<close>
    and e: \<open>type (snd (parseInlineIDL ''E["v"].x'' []) ! ([1, 0] ! 1)) \<noteq> ''base''\<close>
    by auto
  from p1 w1 a b c p2 w2 d e show ?thesis by (intro conjI)
qed

text \<open>
  The claim as it was stated, exactly one base in every returned chain, fails: two
  tokens, two segments, none of them a base.
\<close>

theorem chain_without_base:
  \<open>fst (parseInlineIDL ''Foo["a"].bar'' []) = Inr [1, 0] \<and>
   length (split (CHR ''.'') ''Foo["a"].bar'') = 2 \<and>
   map type (chain_segments (parseInlineIDL ''Foo["a"].bar'' [])) = [''enum-value'', ''attribute''] \<and>
   count_list (map type (chain_segments (parseInlineIDL ''Foo["a"].bar'' []))) ''base'' = 0\<close>
  by code_simp

subsection \<open>Parent links\<close>

text \<open>
  C3, as the code has it. In a returned chain every segment but the first has the
  segment to its left as parent, the first has none, \<open>j\<close> steps along the links from
  the segment at index \<open>k\<close> lead to the segment at index \<open>k - j\<close> (so \<open>k\<close> steps lead
  to the first), and the addresses of the chain are distinct.
\<close>

theorem parent_links:
  assumes "parseInlineIDL str h = (Inr chain, h')"
  shows "(\<forall>k<length chain.
            parent (h' ! (chain ! k)) = (if k = 0 then None else Some (chain ! (k - 1)))) \<and>
         (\<forall>k<length chain. \<forall>j\<le>k. follow h' j (chain ! k) = Some (chain ! (k - j))) \<and>
         distinct chain"
proof -
  have par: "parent (h' ! (chain ! k)) = (if k = 0 then None else Some (chain ! (k - 1)))"
    if "k < length chain" for k
    by (simp add: parse_Inr_segment [OF assms that])
  have fol: "follow h' j (chain ! k) = Some (chain ! (k - j))"
    if "k < length chain" "j \<le> k" for j k
    using that
  proof (induction j arbitrary: k)
    case 0
    then show ?case by simp
  next
    case (Suc j)
    then obtain k' where k': "k = Suc k'" by (cases k) auto
    with Suc.prems have "follow h' j (chain ! k') = Some (chain ! (k' - j))"
      by (intro Suc.IH) simp_all
    with par [OF Suc.prems(1)] k' show ?case by simp
  qed
  have "distinct chain"
    by (simp add: parse_Inr_chain [OF assms])
  with par fol show ?thesis by blast
qed

text \<open>The theorem at a chain of three segments.\<close>

theorem parent_links_witness:
  "parseInlineIDL ''Foo.bar.baz()'' [] = (Inr [2, 1, 0], snd (parseInlineIDL ''Foo.bar.baz()'' [])) \<and>
   parent (snd (parseInlineIDL ''Foo.bar.baz()'' []) ! ([2, 1, 0] ! 0)) = None \<and>
   parent (snd (parseInlineIDL ''Foo.bar.baz()'' []) ! ([2, 1, 0] ! 2)) = Some ([2, 1, 0] ! 1) \<and>
   follow (snd (parseInlineIDL ''Foo.bar.baz()'' [])) 2 ([2, 1, 0] ! 2) = Some ([2, 1, 0] ! 0) \<and>
   distinct [2, 1, 0 :: nat]"
proof -
  have p: "parseInlineIDL ''Foo.bar.baz()'' [] = (Inr [2, 1, 0], snd (parseInlineIDL ''Foo.bar.baz()'' []))"
    by code_simp
  note r = parent_links [OF p]
  note r1 = conjunct1 [OF r] and r2 = conjunct1 [OF conjunct2 [OF r]]
    and d = conjunct2 [OF conjunct2 [OF r]]
  from r1 [rule_format, of 0]
  have a: "parent (snd (parseInlineIDL ''Foo.bar.baz()'' []) ! ([2, 1, 0] ! 0)) = None"
    by simp
  from r1 [rule_format, of 2]
  have b: "parent (snd (parseInlineIDL ''Foo.bar.baz()'' []) ! ([2, 1, 0] ! 2)) = Some ([2, 1, 0] ! 1)"
    by simp
  from r2 [rule_format, of 2 2]
  have c: "follow (snd (parseInlineIDL ''Foo.bar.baz()'' [])) 2 ([2, 1, 0] ! 2) = Some ([2, 1, 0] ! 0)"
    by simp
  from p a b c d show ?thesis by (intro conjI)
qed

text \<open>
  The claim as it was stated gives every segment that is not a base a parent. The
  first segment of this chain is an enum value and has none.
\<close>

theorem first_segment_without_parent:
  \<open>fst (parseInlineIDL ''Color["dark red"].length'' []) = Inr [1, 0] \<and>
   type (hd (chain_segments (parseInlineIDL ''Color["dark red"].length'' []))) = ''enum-value'' \<and>
   type (hd (chain_segments (parseInlineIDL ''Color["dark red"].length'' []))) \<noteq> ''base'' \<and>
   parent (hd (chain_segments (parseInlineIDL ''Color["dark red"].length'' []))) = None\<close>
  by code_simp

subsection \<open>Syntax errors\<close>

text \<open>
  C4. The claim lets the parser throw only when some token matches none of the five
  segment patterns. Every token of \<^verbatim>\<open>Foo.[[bar]]\<close> matches one of them: \<^verbatim>\<open>Foo\<close> is a
  bare word and \<^verbatim>\<open>[[bar]]\<close> an internal slot. The pattern the source tests for
  internal slots matches nothing, so the parser throws all the same, naming
  \<^verbatim>\<open>[[bar]]\<close> at position 2. The two inputs the claim names do fail as it says: the
  empty input at position 1 and \<^verbatim>\<open>Foo..bar\<close> on its empty token at position 2.
\<close>

theorem syntax_error_on_slot_token:
  "list_all spec_classifiable (split (CHR ''.'') ''Foo.[[bar]]'') \<and>
   regex_match ''[[bar]]'' spec_slotRegex = Some [''bar''] \<and>
   regex_match ''[[bar]]'' slotRegex = None \<and>
   fst (parseInlineIDL ''Foo.[[bar]]'' h) = Inl (SyntaxError ''[[bar]]'' 2) \<and>
   fst (parseInlineIDL '''' h) = Inl (SyntaxError '''' 1) \<and>
   fst (parseInlineIDL ''Foo..bar'' h) = Inl (SyntaxError '''' 2)"
proof -
  have all: "list_all spec_classifiable (split (CHR ''.'') ''Foo.[[bar]]'')"
    by code_simp
  have spec: "regex_match ''[[bar]]'' spec_slotRegex = Some [''bar'']"
    by code_simp
  have code: "regex_match ''[[bar]]'' slotRegex = None"
    by (rule slot_never)
  have slot: "fst (parseInlineIDL ''Foo.[[bar]]'' h) = Inl (SyntaxError ''[[bar]]'' 2)"
  proof -
    have "split (CHR ''.'') ''Foo.[[bar]]'' = [''Foo''] @ ''[[bar]]'' # []" by code_simp
    moreover have "\<not> classifiable ''[[bar]]''" by code_simp
    ultimately show ?thesis
      using parse_err [of "''Foo.[[bar]]''" "[''Foo'']" "''[[bar]]''" "[]" h] by simp
  qed
  have empty: "fst (parseInlineIDL '''' h) = Inl (SyntaxError '''' 1)"
  proof -
    have "split (CHR ''.'') '''' = [] @ '''' # []" by simp
    moreover have "\<not> classifiable ''''" by code_simp
    ultimately show ?thesis
      using parse_err [of "''''" "[]" "''''" "[]" h] by simp
  qed
  have gap: "fst (parseInlineIDL ''Foo..bar'' h) = Inl (SyntaxError '''' 2)"
  proof -
    have "split (CHR ''.'') ''Foo..bar'' = [''Foo''] @ '''' # [''bar'']" by code_simp
    moreover have "\<not> classifiable ''''" by code_simp
    moreover have "\<forall>v\<in>set [''bar'']. classifiable v" by code_simp
    ultimately show ?thesis
      using parse_err [of "''Foo..bar''" "[''Foo'']" "''''" "[''bar'']" h] by simp
  qed
  from all spec code slot empty gap show ?thesis by (intro conjI)
qed

subsection \<open>Arguments of a method\<close>

text \<open>
  C5. A token that the method pattern accepts ends in \<^verbatim>\<open>ident(allArgs)\<close>, these two
  being the captures; its segment is a method with that identifier, and its arguments
  are the list \<open>spec_args\<close> makes of \<open>allArgs\<close>: split at commas, white space after a
  comma skipped, empty pieces dropped. Empty parentheses give no arguments.
\<close>

theorem method_args:
  assumes "parseInlineIDL str h = (Inr chain, h')" and "k < length chain"
    and "regex_test methodRegex (split (CHR ''.'') str ! k)"
  shows "\<exists>p ident allArgs.
      split (CHR ''.'') str ! k = p @ ident @ ''('' @ allArgs @ '')'' \<and>
      regex_match (split (CHR ''.'') str ! k) methodRegex = Some [ident, allArgs] \<and>
      type (h' ! (chain ! k)) = ''method'' \<and>
      identifier (h' ! (chain ! k)) = ident \<and>
      args (h' ! (chain ! k)) = Some (spec_args allArgs) \<and>
      (allArgs = [] \<longrightarrow> args (h' ! (chain ! k)) = Some [])"
proof -
  let ?v = "split (CHR ''.'') str ! k"
  from assms(3) obtain caps where caps: "regex_match ?v methodRegex = Some caps"
    by (auto simp: regex_test_def)
  from method_sound [OF caps] obtain p ident allArgs where
    c: "caps = [ident, allArgs]" and v: "?v = p @ ident @ ''('' @ allArgs @ '')''"
    by blast
  from caps c have m: "regex_match ?v methodRegex = Some [ident, allArgs]" by simp
  have seg: "h' ! (chain ! k) =
      ((new_segment ''method'' ident)\<lparr>args := Some (spec_args allArgs)\<rparr>)
        \<lparr>parent := if 0 < k then Some (chain ! (k - 1)) else None\<rparr>"
    unfolding parse_Inr_segment [OF assms(1,2)] token_object_method [OF m] by simp
  have e: "spec_args [] = []" by (simp add: spec_args_def)
  have "type (h' ! (chain ! k)) = ''method''"
    and "identifier (h' ! (chain ! k)) = ident"
    and "args (h' ! (chain ! k)) = Some (spec_args allArgs)"
    and "allArgs = [] \<longrightarrow> args (h' ! (chain ! k)) = Some []"
    unfolding seg by (simp_all add: new_segment_def e)
  with v m show ?thesis by blast
qed

text \<open>The theorem at \<^verbatim>\<open>Foo.baz(arg1, arg2)\<close>: a base and a method with two arguments.\<close>

theorem method_args_witness:
  "parseInlineIDL ''Foo.baz(arg1, arg2)'' [] =
     (Inr [1, 0], snd (parseInlineIDL ''Foo.baz(arg1, arg2)'' [])) \<and>
   regex_test methodRegex (split (CHR ''.'') ''Foo.baz(arg1, arg2)'' ! 1) \<and>
   regex_match ''baz(arg1, arg2)'' methodRegex = Some [''baz'', ''arg1, arg2''] \<and>
   spec_args ''arg1, arg2'' = [''arg1'', ''arg2''] \<and>
   map type (chain_segments (parseInlineIDL ''Foo.baz(arg1, arg2)'' [])) = [''base'', ''method''] \<and>
   map identifier (chain_segments (parseInlineIDL ''Foo.baz(arg1, arg2)'' [])) = [''Foo'', ''baz''] \<and>
   (\<exists>p ident allArgs.
      split (CHR ''.'') ''Foo.baz(arg1, arg2)'' ! 1 = p @ ident @ ''('' @ allArgs @ '')'' \<and>
      regex_match (split (CHR ''.'') ''Foo.baz(arg1, arg2)'' ! 1) methodRegex =
        Some [ident, allArgs] \<and>
      type (snd (parseInlineIDL ''Foo.baz(arg1, arg2)'' []) ! ([1, 0] ! 1)) = ''method'' \<and>
      identifier (snd (parseInlineIDL ''Foo.baz(arg1, arg2)'' []) ! ([1, 0] ! 1)) = ident \<and>
      args (snd (parseInlineIDL ''Foo.baz(arg1, arg2)'' []) ! ([1, 0] ! 1)) =
        Some (spec_args allArgs) \<and>
      (allArgs = [] \<longrightarrow>
         args (snd (parseInlineIDL ''Foo.baz(arg1, arg2)'' []) ! ([1, 0] ! 1)) = Some []))"
proof -
  have p: "parseInlineIDL ''Foo.baz(arg1, arg2)'' [] =
     (Inr [1, 0], snd (parseInlineIDL ''Foo.baz(arg1, arg2)'' []))"
    by code_simp
  have k: "1 < length [1, 0 :: nat]" by simp
  have m: "regex_test methodRegex (split (CHR ''.'') ''Foo.baz(arg1, arg2)'' ! 1)"
    by code_simp
  have c: "regex_match ''baz(arg1, arg2)'' methodRegex = Some [''baz'', ''arg1, arg2'']"
    by code_simp
  have s: "spec_args ''arg1, arg2'' = [''arg1'', ''arg2'']"
    by code_simp
  have t: "map type (chain_segments (parseInlineIDL ''Foo.baz(arg1, arg2)'' [])) =
      [''base'', ''method'']"
    by code_simp
  have i: "map identifier (chain_segments (parseInlineIDL ''Foo.baz(arg1, arg2)'' [])) =
      [''Foo'', ''baz'']"
    by code_simp
  note r = method_args [OF p k m]
  show ?thesis
    by (rule conjI [OF p conjI [OF m conjI [OF c conjI [OF s conjI [OF t conjI [OF i r]]]]]])
qed

subsection \<open>Bare words\<close>




subsection \<open>A single token in enum form\<close>

text \<open>
  C7, as the code has it. The input \<^verbatim>\<open>Foo["enum value"]\<close> has no dot, so it is one token;
  the enum pattern takes the identifier and the value from that one token, and the
  chain is a single enum value without parent.
\<close>

theorem single_enum_token:
  \<open>parseInlineIDL ''Foo["enum value"]'' h =
     (Inr [length h],
      h @ [\<lparr>type = ''enum-value'', identifier = ''Foo'', args = None,
             enumValue = Some ''enum value'', parent = None, idlType = Undefined\<rparr>])\<close>
proof -
  have s: \<open>split (CHR ''.'') ''Foo["enum value"]'' = [''Foo["enum value"]'']\<close>
    by code_simp
  have c: \<open>\<forall>t\<in>set (split (CHR ''.'') ''Foo["enum value"]''). classifiable t\<close>
    unfolding s by code_simp
  have o: \<open>objs [''Foo["enum value"]''] =
      [\<lparr>type = ''enum-value'', identifier = ''Foo'', args = None,
             enumValue = Some ''enum value'', parent = None, idlType = Undefined\<rparr>]\<close>
    by code_simp
  show ?thesis
    unfolding parse_ok [OF c] s o by simp
qed

text \<open>The claim as it was stated expects two segments, a base first.\<close>

theorem single_enum_token_two_segments_fails:
  \<open>fst (parseInlineIDL ''Foo["enum value"]'' []) = Inr [0] \<and>
   length (chain_segments (parseInlineIDL ''Foo["enum value"]'' [])) \<noteq> 2 \<and>
   map type (chain_segments (parseInlineIDL ''Foo["enum value"]'' [])) = [''enum-value'']\<close>
  by code_simp

subsection \<open>Determinism of rendering\<close>

text \<open>
  C8. The renderer writes into the objects of the chain, so the store is the one piece
  of state a run could leave behind. For a fixed document, input and context node the
  result (the fragment, or the error thrown) is the same in every store the run starts
  in; in particular a second run, started in the store the first one left, gives what
  the first gave.
\<close>

theorem rendering_deterministic:
  "fst (idlStringToHtml document str contextNode h1) =
   fst (idlStringToHtml document str contextNode h2) \<and>
   fst (idlStringToHtml document str contextNode
          (snd (idlStringToHtml document str contextNode h1))) =
   fst (idlStringToHtml document str contextNode h1)"
proof -
  have e: "fst (idlStringToHtml document str contextNode h) =
        fst (idlStringToHtml document str contextNode [])" for h
    by (subst idlStringToHtml_reloc) simp
  show ?thesis
    using e [of h1] e [of h2] e [of "snd (idlStringToHtml document str contextNode h1)"]
    by simp
qed

subsection \<open>A method as the only token\<close>

text \<open>
  C9. The method branch does not ask whether tokens remain. The input \<^verbatim>\<open>baz()\<close> parses
  into one method segment whose parent is \<^verbatim>\<open>null\<close>; \<^verbatim>\<open>renderMethod\<close> on that segment
  throws a \<^verbatim>\<open>TypeError\<close>, and so does \<^verbatim>\<open>idlStringToHtml\<close>.
\<close>

theorem single_method_token_fails_in_renderMethod:
  "parseInlineIDL ''baz()'' h =
     (Inr [length h],
      h @ [\<lparr>type = ''method'', identifier = ''baz'', args = Some [],
             enumValue = None, parent = None, idlType = Undefined\<rparr>]) \<and>
   renderMethod (length h) contextNode
     (h @ [\<lparr>type = ''method'', identifier = ''baz'', args = Some [],
             enumValue = None, parent = None, idlType = Undefined\<rparr>]) = Inl TypeError \<and>
   fst (idlStringToHtml document ''baz()'' contextNode h) = Inl TypeError"
proof -
  have s: "split (CHR ''.'') ''baz()'' = [''baz()'']"
    by code_simp
  have c: "\<forall>t\<in>set (split (CHR ''.'') ''baz()''). classifiable t"
    unfolding s by code_simp
  have o: "objs [''baz()''] =
      [\<lparr>type = ''method'', identifier = ''baz'', args = Some [],
             enumValue = None, parent = None, idlType = Undefined\<rparr>]"
    by code_simp
  have p: "parseInlineIDL ''baz()'' h =
     (Inr [length h],
      h @ [\<lparr>type = ''method'', identifier = ''baz'', args = Some [],
             enumValue = None, parent = None, idlType = Undefined\<rparr>])"
    unfolding parse_ok [OF c] s o by simp
  have m: "renderMethod (length h) contextNode
     (h @ [\<lparr>type = ''method'', identifier = ''baz'', args = Some [],
             enumValue = None, parent = None, idlType = Undefined\<rparr>]) = Inl TypeError"
    by (simp add: renderMethod_def)
  have "fst (idlStringToHtml document ''baz()'' contextNode []) = Inl TypeError"
    by code_simp
  then have "fst (idlStringToHtml document ''baz()'' contextNode h) = Inl TypeError"
    by (subst idlStringToHtml_reloc) simp
  with p m show ?thesis by (intro conjI)
qed

subsection \<open>Text before the method name\<close>

text \<open>
  C10. The method pattern is anchored at the end only. The token \<^verbatim>\<open>x]y(a, b)\<close> is
  accepted with the captures \<^verbatim>\<open>y\<close> and \<^verbatim>\<open>a, b\<close>; the parser returns a method named
  \<^verbatim>\<open>y\<close> with the arguments \<^verbatim>\<open>a\<close> and \<^verbatim>\<open>b\<close>, and the prefix \<^verbatim>\<open>x]\<close> is gone.
\<close>

theorem method_prefix_discarded:
  "regex_test methodRegex ''x]y(a, b)'' \<and>
   regex_match ''x]y(a, b)'' methodRegex = Some [''y'', ''a, b''] \<and>
   parseInlineIDL ''x]y(a, b)'' h =
     (Inr [length h],
      h @ [\<lparr>type = ''method'', identifier = ''y'', args = Some [''a'', ''b''],
             enumValue = None, parent = None, idlType = Undefined\<rparr>])"
proof -
  have t: "regex_test methodRegex ''x]y(a, b)''"
    by code_simp
  have m: "regex_match ''x]y(a, b)'' methodRegex = Some [''y'', ''a, b'']"
    by code_simp
  have s: "split (CHR ''.'') ''x]y(a, b)'' = [''x]y(a, b)'']"
    by code_simp
  have c: "\<forall>t\<in>set (split (CHR ''.'') ''x]y(a, b)''). classifiable t"
    unfolding s by code_simp
  have o: "objs [''x]y(a, b)''] =
      [\<lparr>type = ''method'', identifier = ''y'', args = Some [''a'', ''b''],
             enumValue = None, parent = None, idlType = Undefined\<rparr>]"
    by code_simp
  have p: "parseInlineIDL ''x]y(a, b)'' h =
     (Inr [length h],
      h @ [\<lparr>type = ''method'', identifier = ''y'', args = Some [''a'', ''b''],
             enumValue = None, parent = None, idlType = Undefined\<rparr>])"
    unfolding parse_ok [OF c] s o by simp
  from t m p show ?thesis by (intro conjI)
qed

end
